theory Spec2Isabelle
  imports Main "HOL-Library.Multiset" "HOL-Library.AList"
begin

section \<open>Values, objects and the store\<close>

text \<open>
  The read path of the cache works on JavaScript values.  Objects and arrays are
  mutable and shared by reference: the overlay engine copies containers and then
  writes into the copies, while the stored node data stays referenced from the
  snapshot.  Values are therefore modelled over an explicit store: a container
  value is a reference \<open>JRef a\<close> to a cell of the store.

  \<^item> \<open>JUndefined\<close> is a value of its own: a property can be present and hold
    \<open>undefined\<close> (\<open>key in value\<close> is then true).
  \<^item> An array is an object too; it has its elements and, like every object, may
    receive named properties by assignment.  A spread copy \<open>[...a]\<close> copies the
    elements only.
  \<^item> Properties inherited from the prototypes (\<open>toString\<close>, \<open>length\<close>, ...) are
    not modelled: field names are taken not to collide with them.
  \<^item> A property list keeps insertion order, as a JS object does for string keys.
\<close>

type_synonym NodeId = string
type_synonym addr = nat

datatype PathPart = PathIndex nat | PathKey string

datatype jsvalue =
    JUndefined
  | JNull
  | JBool bool
  | JNum int
  | JStr string
  | JRef addr

datatype jsobject =
    JObject "(string \<times> jsvalue) list"
  | JArray "jsvalue list" "(string \<times> jsvalue) list"

type_synonym heap = "jsobject list"

text \<open>Errors the read path can raise.  The module is compiled as a strict-mode
  module, where reading a property of \<open>null\<close>/\<open>undefined\<close> and creating a property
  on a primitive both throw a \<open>TypeError\<close>.\<close>

datatype error = TypeError | InvariantError | MalformedQuery

text \<open>A reference outside the store does not occur in a running program; the model
  reads it as an object without properties.\<close>

definition cell :: "heap \<Rightarrow> addr \<Rightarrow> jsobject" where
  "cell h a = (if a < length h then h ! a else JObject [])"

definition alloc :: "heap \<Rightarrow> jsobject \<Rightarrow> heap \<times> jsvalue" where
  "alloc h obj = (h @ [obj], JRef (length h))"

fun props_of :: "jsobject \<Rightarrow> (string \<times> jsvalue) list" where
  "props_of (JObject ps) = ps"
| "props_of (JArray es ps) = ps"

fun with_props :: "jsobject \<Rightarrow> (string \<times> jsvalue) list \<Rightarrow> jsobject" where
  "with_props (JObject _) ps = JObject ps"
| "with_props (JArray es _) ps = JArray es ps"

text \<open>\<open>Array.isArray(v)\<close>, with the elements when it holds.\<close>

definition array_elems :: "heap \<Rightarrow> jsvalue \<Rightarrow> jsvalue list option" where
  "array_elems h v =
     (case v of
        JRef a \<Rightarrow> (case cell h a of JArray es ps \<Rightarrow> Some es | JObject ps \<Rightarrow> None)
      | _ \<Rightarrow> None)"

text \<open>JS truthiness, as used by \<open>!x\<close> and \<open>if (x)\<close>.\<close>

fun truthy :: "jsvalue \<Rightarrow> bool" where
  "truthy JUndefined = False"
| "truthy JNull = False"
| "truthy (JBool b) = b"
| "truthy (JNum n) = (n \<noteq> 0)"
| "truthy (JStr s) = (s \<noteq> [])"
| "truthy (JRef a) = True"

text \<open>\<open>key in value\<close> for an object \<open>value\<close>.\<close>

definition has_prop :: "heap \<Rightarrow> jsvalue \<Rightarrow> string \<Rightarrow> bool" where
  "has_prop h v k =
     (case v of JRef a \<Rightarrow> k \<in> set (map fst (props_of (cell h a))) | _ \<Rightarrow> False)"

text \<open>\<open>value[key]\<close>: a \<open>TypeError\<close> on \<open>null\<close> and \<open>undefined\<close>, \<open>undefined\<close> on
  the other primitives and on a missing property.\<close>

definition read_prop :: "heap \<Rightarrow> jsvalue \<Rightarrow> string \<Rightarrow> error + jsvalue" where
  "read_prop h v k =
     (case v of
        JUndefined \<Rightarrow> Inl TypeError
      | JNull \<Rightarrow> Inl TypeError
      | JRef a \<Rightarrow>
          (case map_of (props_of (cell h a)) k of
             Some x \<Rightarrow> Inr x
           | None \<Rightarrow> Inr JUndefined)
      | _ \<Rightarrow> Inr JUndefined)"

text \<open>\<open>value[key] = child\<close>: an existing property keeps its place, a new one is
  appended; on anything but an object it is a \<open>TypeError\<close>.\<close>

definition write_prop :: "heap \<Rightarrow> jsvalue \<Rightarrow> string \<Rightarrow> jsvalue \<Rightarrow> error + heap" where
  "write_prop h v k x =
     (case v of
        JRef a \<Rightarrow>
          Inr (h[a := with_props (cell h a) (AList.update k x (props_of (cell h a)))])
      | _ \<Rightarrow> Inl TypeError)"

text \<open>Modelled from the spec: the helpers \<open>isObject\<close> and \<open>isNil\<close> of \<open>../util\<close>,
  which is not among the sources.  \<open>isObject\<close> holds of every non-null value of
  type object (a container); \<open>isNil\<close> of \<open>null\<close> and \<open>undefined\<close>.\<close>

fun isObject :: "jsvalue \<Rightarrow> bool" where
  "isObject (JRef a) = True"
| "isObject _ = False"

fun isNil :: "jsvalue \<Rightarrow> bool" where
  "isNil JUndefined = True"
| "isNil JNull = True"
| "isNil _ = False"

text \<open>\<open>get\<close> of the walker's module: \<open>value[key]\<close> when \<open>value\<close> is a non-null
  object, \<open>undefined\<close> otherwise.\<close>

definition get :: "heap \<Rightarrow> jsvalue \<Rightarrow> string \<Rightarrow> jsvalue" where
  "get h v key =
     (case v of
        JRef a \<Rightarrow> (case map_of (props_of (cell h a)) key of Some x \<Rightarrow> x | None \<Rightarrow> JUndefined)
      | _ \<Rightarrow> JUndefined)"

section \<open>Query documents and compiled queries\<close>

text \<open>
  The query AST of the \<open>graphql\<close> library.  \<open>indexOf\<close> compares selection nodes by
  reference; the reference of a node is modelled by the tag \<open>ref\<close>, which the nodes
  of one document do not share.  A spread copy \<open>{...selection, selectionSet: s}\<close>
  is a new object; the model keeps the tag of the node it was copied from, and no
  comparison is ever made on such a copy.
\<close>

datatype json =
    JsonNull
  | JsonBool bool
  | JsonNum int
  | JsonStr string
  | JsonArr "json list"
  | JsonObj "(string \<times> json) list"

datatype ValueNode = Variable string | Literal json

type_synonym DirectiveNode = "string \<times> (string \<times> ValueNode) list"

datatype SelectionNode =
    Field (ref: nat) (fieldAlias: "string option") (name: string)
      (arguments: "(string \<times> ValueNode) list") (directives: "DirectiveNode list")
      (selectionSet: "SelectionNode list option")
  | FragmentSpread (ref: nat) (name: string) (directives: "DirectiveNode list")
  | InlineFragment (ref: nat) (typeCondition: "string option")
      (directives: "DirectiveNode list") (selections: "SelectionNode list")

datatype DefinitionNode =
    OperationDefinition (defOperation: string) (defName: "string option")
      (defSelectionSet: "SelectionNode list")
  | FragmentDefinition (fragName: string) (fragType: string)
      (defSelectionSet: "SelectionNode list")

record DocumentNode =
  definitions :: "DefinitionNode list"

type_synonym FieldArguments = "(string \<times> json) list"

text \<open>The compiled field descriptor.  A compiled query maps response keys to
  descriptors; \<open>for (key in parsedMap)\<close> enumerates it in insertion order, so it is
  an association list.\<close>

datatype ParsedQueryNode =
  ParsedQueryNode (selection: SelectionNode)
    (children: "(string \<times> ParsedQueryNode) list option")
    (schemaName: "string option")
    (args: "FieldArguments option")
    (hasParameterizedChildren: bool)

type_synonym ParsedQuery = "(string \<times> ParsedQueryNode) list"

record OperationInstance =
  rootId :: NodeId
  isStatic :: bool
  parsedQuery :: ParsedQuery
  info_parsed :: ParsedQuery

section \<open>The generic tree walker\<close>

datatype OperationWalkNode =
  OperationWalkNode (parsedOperation: ParsedQuery) (parentSelection: "SelectionNode option")
    (parent: jsvalue)

text \<open>The visitor is a closure that updates variables of its defining scope; here it
  takes and returns their state \<open>'s\<close>.  Returning \<open>True\<close> stops the walk below the
  node.\<close>

type_synonym 's OperationVisitor =
  "'s \<Rightarrow> jsvalue \<Rightarrow> (string \<times> SelectionNode) list \<Rightarrow> SelectionNode option \<Rightarrow> bool \<times> 's"

text \<open>The nodes one loop iteration pushes for the fields that have children, listed
  in push order.\<close>

fun child_walk_nodes :: "heap \<Rightarrow> jsvalue \<Rightarrow> ParsedQuery \<Rightarrow> OperationWalkNode list" where
  "child_walk_nodes h p [] = []"
| "child_walk_nodes h p ((fieldName, node) # rest) =
     (case children node of
        Some nextParsedQuery \<Rightarrow>
          OperationWalkNode nextParsedQuery (Some (selection node)) (get h p fieldName)
            # child_walk_nodes h p rest
      | None \<Rightarrow> child_walk_nodes h p rest)"

text \<open>One iteration of the \<open>while\<close> loop on the popped node: the nodes it pushes
  (the head of the list is the top of the stack, popped next) and the visitor's
  state.\<close>

definition walk_step ::
  "heap \<Rightarrow> 's OperationVisitor \<Rightarrow> OperationWalkNode \<Rightarrow> 's \<Rightarrow> OperationWalkNode list \<times> 's" where
  "walk_step h visitor n s =
     (if parent n = JNull then ([], s)
      else
        (case array_elems h (parent n) of
           Some es \<Rightarrow>
             (map (\<lambda>e. OperationWalkNode (parsedOperation n) (parentSelection n) e) es, s)
         | None \<Rightarrow>
             (let flds = map (\<lambda>(fieldName, node). (fieldName, selection node))
                           (parsedOperation n)
              in if flds = [] then ([], s)
                 else
                   (case visitor s (parent n) flds (parentSelection n) of
                      (shouldStop, s') \<Rightarrow>
                        if shouldStop then ([], s')
                        else (rev (child_walk_nodes h (parent n) (parsedOperation n)), s')))))"

text \<open>The loop itself.  On a store with a cycle through arrays it does not return:
  not returning is the value \<open>None\<close>.\<close>

partial_function (option) walk_loop ::
  "heap \<Rightarrow> 's OperationVisitor \<Rightarrow> OperationWalkNode list \<Rightarrow> 's \<Rightarrow> 's option" where
  "walk_loop h visitor stack s =
     (case stack of
        [] \<Rightarrow> Some s
      | n # rest \<Rightarrow>
          (case walk_step h visitor n s of
             (pushed, s') \<Rightarrow> walk_loop h visitor (pushed @ rest) s'))"

definition walkOperation ::
  "heap \<Rightarrow> ParsedQuery \<Rightarrow> jsvalue \<Rightarrow> 's OperationVisitor \<Rightarrow> 's \<Rightarrow> 's option" where
  "walkOperation h rootOperation result visitor s =
     walk_loop h visitor [OperationWalkNode rootOperation None result] s"

section \<open>External collaborators\<close>

record RawOperation =
  document :: DocumentNode
  variables :: "string \<Rightarrow> json option"

text \<open>The cache context.  Its members are supplied by the configuration and are
  parameters here.  \<open>entityIdForValue\<close> may inspect the value it is given, so it
  takes the store; \<open>entityTransformer\<close> enriches the object it is handed in place
  and is taken to change that object's own properties only.  \<open>resolverRedirects\<close>
  stands for the lookup \<open>deepGet(context.resolverRedirects, [typeName, fieldName])\<close>,
  as a function of the type name's value and the field name.\<close>

record CacheContext =
  parseOperation :: "RawOperation \<Rightarrow> error + OperationInstance"
  entityIdForValue :: "heap \<Rightarrow> jsvalue \<Rightarrow> NodeId option"
  entityTransformer :: "((string \<times> jsvalue) list \<Rightarrow> (string \<times> jsvalue) list) option"
  resolverRedirects :: "jsvalue \<Rightarrow> string \<Rightarrow> (FieldArguments \<Rightarrow> NodeId option) option"

text \<open>What the module imports from outside the sources: \<open>getMainDefinition\<close> and
  \<open>shouldInclude\<close> of \<open>apollo-utilities\<close> (the first throws when the document has
  no definition to return), \<open>nodeIdForParameterizedValue\<close> of the snapshot editor,
  and the constant \<open>StaticNodeId.QueryRoot\<close>.\<close>

record Imports =
  getMainDefinition :: "DocumentNode \<Rightarrow> DefinitionNode option"
  shouldInclude :: "SelectionNode \<Rightarrow> (string \<Rightarrow> json option) \<Rightarrow> bool"
  nodeIdForParameterizedValue :: "NodeId \<Rightarrow> PathPart list \<Rightarrow> FieldArguments \<Rightarrow> NodeId"
  QueryRoot :: NodeId

section \<open>The completeness visitor\<close>

text \<open>The variables \<open>complete\<close>, \<open>missingFields\<close> and \<open>nodeIds\<close> that the visitor
  closure of \<open>_visitSelection\<close> updates.\<close>

record VisitState =
  v_complete :: bool
  v_missingFields :: "SelectionNode list"
  v_nodeIds :: "NodeId set option"

text \<open>The \<open>for\<close> loop over the fields, which leaves at the first field that is not
  in the value.\<close>

fun check_fields ::
  "heap \<Rightarrow> jsvalue \<Rightarrow> (string \<times> SelectionNode) list \<Rightarrow> VisitState \<Rightarrow> VisitState" where
  "check_fields h v [] st = st"
| "check_fields h v ((field, fieldNode) # flds) st =
     (if \<not> has_prop h v field
      then st\<lparr>v_missingFields := v_missingFields st @ [fieldNode], v_complete := False\<rparr>
      else check_fields h v flds st)"

definition visitor :: "CacheContext \<Rightarrow> heap \<Rightarrow> VisitState OperationVisitor" where
  "visitor context h st v flds parentSel =
     (if v = JUndefined then
        (True,
         (case parentSel of
            Some p \<Rightarrow> st\<lparr>v_complete := False, v_missingFields := v_missingFields st @ [p]\<rparr>
          | None \<Rightarrow> st\<lparr>v_complete := False\<rparr>))
      else if \<not> isObject v then (False, st)
      else
        (let st1 =
           (case v_nodeIds st of
              Some ids \<Rightarrow>
                (case entityIdForValue context h v of
                   Some nodeId \<Rightarrow> st\<lparr>v_nodeIds := Some (insert nodeId ids)\<rparr>
                 | None \<Rightarrow> st)
            | None \<Rightarrow> st)
         in (False, check_fields h v flds st1)))"

definition visitSelection ::
  "CacheContext \<Rightarrow> heap \<Rightarrow> OperationInstance \<Rightarrow> jsvalue \<Rightarrow> NodeId set option
     \<Rightarrow> VisitState option" where
  "visitSelection context h query result nodeIds =
     walkOperation h (info_parsed query) result (visitor context h)
       \<lparr>v_complete = True, v_missingFields = [],
        v_nodeIds =
          (case nodeIds of
             Some ids \<Rightarrow> Some (if result \<noteq> JUndefined then insert (rootId query) ids else ids)
           | None \<Rightarrow> None)\<rparr>"

section \<open>The query partitioner\<close>

text \<open>\<open>fields.indexOf(selection) !== -1\<close>: the node itself is in the list.\<close>

definition listed :: "SelectionNode list \<Rightarrow> SelectionNode \<Rightarrow> bool" where
  "listed flds sel = (ref sel \<in> set (map ref flds))"

text \<open>The \<open>forEach\<close> over \<open>selectionSet.selections\<close>, which fills
  \<open>resultSelectionsSet.selections\<close>.  The fragment map of the execution context is
  never consulted and is left out.\<close>

fun findMissingSelectionSets ::
  "Imports \<Rightarrow> (string \<Rightarrow> json option) \<Rightarrow> SelectionNode list \<Rightarrow> SelectionNode list
     \<Rightarrow> SelectionNode list" where
  "findMissingSelectionSets imp vars flds [] = []"
| "findMissingSelectionSets imp vars flds (sel # rest) =
     (if \<not> shouldInclude imp sel vars then findMissingSelectionSets imp vars flds rest
      else
        (case sel of
           Field r a n ar ds None \<Rightarrow>
             (if listed flds sel then sel # findMissingSelectionSets imp vars flds rest
              else findMissingSelectionSets imp vars flds rest)
         | Field r a n ar ds (Some sub) \<Rightarrow>
             (if listed flds sel then sel # findMissingSelectionSets imp vars flds rest
              else
                (let selectionToInsert = findMissingSelectionSets imp vars flds sub
                 in if length selectionToInsert > 0
                    then Field r a n ar ds (Some selectionToInsert)
                           # findMissingSelectionSets imp vars flds rest
                    else findMissingSelectionSets imp vars flds rest))
         | _ \<Rightarrow> findMissingSelectionSets imp vars flds rest))"

text \<open>\<open>{...mainDefinition, selectionSet: s}\<close>.\<close>

fun with_selectionSet :: "DefinitionNode \<Rightarrow> SelectionNode list \<Rightarrow> DefinitionNode" where
  "with_selectionSet (OperationDefinition op nm _) s = OperationDefinition op nm s"
| "with_selectionSet (FragmentDefinition nm ty _) s = FragmentDefinition nm ty s"

definition partitionQuery ::
  "Imports \<Rightarrow> SelectionNode list \<Rightarrow> RawOperation \<Rightarrow> error + RawOperation" where
  "partitionQuery imp flds originalOperation =
     (case getMainDefinition imp (document originalOperation) of
        None \<Rightarrow> Inl InvariantError
      | Some mainDefinition \<Rightarrow>
          Inr (originalOperation
                \<lparr>document := (document originalOperation)
                   \<lparr>definitions :=
                      [with_selectionSet mainDefinition
                         (findMissingSelectionSets imp (variables originalOperation) flds
                            (defSelectionSet mainDefinition))]\<rparr>\<rparr>))"

text \<open>What a selection kept in a rebuilt selection set looks like: it is a field, and
  it is either one of the listed nodes, kept as it is, or a copy around a rebuilt
  selection set that is not empty.\<close>

fun kept_ok :: "SelectionNode list \<Rightarrow> SelectionNode \<Rightarrow> bool" where
  "kept_ok flds (Field r a n ar ds ss) =
     (listed flds (Field r a n ar ds ss) \<or>
      (case ss of
         Some sub \<Rightarrow> sub \<noteq> [] \<and> (\<forall>s \<in> set sub. kept_ok flds s)
       | None \<Rightarrow> False))"
| "kept_ok flds _ = False"

section \<open>The graph snapshot\<close>

text \<open>Modelled from the spec: the graph store collaborator (class \<open>GraphSnapshot\<close>,
  not among the sources), which exposes \<open>getNodeSnapshot(id)\<close>, giving the stored
  node with its data or \<open>undefined\<close>, \<open>getNodeData(id)\<close>, giving the data or
  \<open>undefined\<close>, and the read-result memoization table keyed by operation
  instance.  The table is keyed by the instance object; the model looks an instance
  up by its value.\<close>

record NodeSnapshot =
  data :: jsvalue

record QueryResult =
  result :: jsvalue
  complete :: "bool option"
  entityIds :: "NodeId set option"
  dynamicNodeIds :: "NodeId set option"
  partitionedQuery :: "DocumentNode option"

record GraphSnapshot =
  nodes :: "NodeId \<Rightarrow> NodeSnapshot option"
  readCache :: "OperationInstance \<Rightarrow> QueryResult option"

definition getNodeSnapshot :: "GraphSnapshot \<Rightarrow> NodeId \<Rightarrow> NodeSnapshot option" where
  "getNodeSnapshot snapshot nid = nodes snapshot nid"

definition getNodeData :: "GraphSnapshot \<Rightarrow> NodeId \<Rightarrow> jsvalue" where
  "getNodeData snapshot nid =
     (case getNodeSnapshot snapshot nid of Some n \<Rightarrow> data n | None \<Rightarrow> JUndefined)"

section \<open>The dynamic overlay engine\<close>

datatype OverlayWalkNode =
  OverlayWalkNode (walkValue: jsvalue) (containerId: NodeId) (parsedMap: ParsedQuery)
    (path: "PathPart list")

text \<open>The state the overlay loop works on: the store, the queue (its head is the
  node popped next), the set \<open>dynamicNodeIds\<close> it adds to, and the exception thrown,
  if any.  When an exception is thrown the loop is left at once; the store and the
  set keep what was written before.\<close>

record OverlayState =
  ov_heap :: heap
  ov_queue :: "OverlayWalkNode list"
  ov_dynamicNodeIds :: "NodeId set"
  ov_thrown :: "error option"

text \<open>\<open>if (id)\<close> for a node id or \<open>undefined\<close>: the empty string is falsy too.\<close>

fun id_truthy :: "NodeId option \<Rightarrow> bool" where
  "id_truthy None = False"
| "id_truthy (Some s) = (s \<noteq> [])"

definition wrapValue :: "CacheContext \<Rightarrow> heap \<Rightarrow> jsvalue \<Rightarrow> heap \<times> jsvalue" where
  "wrapValue context h v =
     (if v = JUndefined then alloc h (JObject [])
      else
        (case v of
           JRef a \<Rightarrow>
             (case cell h a of
                JArray es ps \<Rightarrow> alloc h (JArray es [])
              | JObject ps \<Rightarrow>
                  (case entityTransformer context of
                     Some transform \<Rightarrow>
                       if id_truthy (entityIdForValue context h v)
                       then alloc h (JObject (transform ps))
                       else alloc h (JObject ps)
                   | None \<Rightarrow> alloc h (JObject ps)))
         | _ \<Rightarrow> (h, v)))"

text \<open>\<open>child[i] = x\<close> on the array at address \<open>a\<close>.\<close>

definition write_elem :: "heap \<Rightarrow> addr \<Rightarrow> nat \<Rightarrow> jsvalue \<Rightarrow> heap" where
  "write_elem h a i x =
     (case cell h a of
        JArray es ps \<Rightarrow> h[a := JArray (es[i := x]) ps]
      | JObject ps \<Rightarrow> h)"

definition elem_at :: "heap \<Rightarrow> addr \<Rightarrow> nat \<Rightarrow> jsvalue" where
  "elem_at h a i =
     (case cell h a of
        JArray es ps \<Rightarrow> (if i < length es then es ! i else JUndefined)
      | JObject ps \<Rightarrow> JUndefined)"

text \<open>The loop \<open>for (i = child.length - 1; i >= 0; i--)\<close> over the copied array at
  address \<open>ac\<close>; the counter is \<open>i + 1\<close>.\<close>

fun overlay_elements ::
  "CacheContext \<Rightarrow> addr \<Rightarrow> NodeId \<Rightarrow> ParsedQuery \<Rightarrow> PathPart list \<Rightarrow> nat
     \<Rightarrow> heap \<times> OverlayWalkNode list \<Rightarrow> heap \<times> OverlayWalkNode list" where
  "overlay_elements context ac nextContainerId ch nextPath 0 (h, queue) = (h, queue)"
| "overlay_elements context ac nextContainerId ch nextPath (Suc i) (h, queue) =
     (if elem_at h ac i = JNull
      then overlay_elements context ac nextContainerId ch nextPath i (h, queue)
      else
        (case wrapValue context h (elem_at h ac i) of
           (h1, w) \<Rightarrow>
             overlay_elements context ac nextContainerId ch nextPath i
               (write_elem h1 ac i w,
                OverlayWalkNode w nextContainerId ch (nextPath @ [PathIndex i]) # queue)))"

text \<open>The test "Have we reached a leaf (either in the query, or in the cache)?" and
  its branch: when there is more to overlay below, the child is replaced by a copy
  (an array element by element) and queued.  It gives the state and the child to
  write.\<close>

definition overlay_descend ::
  "CacheContext \<Rightarrow> ParsedQueryNode \<Rightarrow> NodeId \<Rightarrow> PathPart list \<Rightarrow> jsvalue \<Rightarrow> OverlayState
     \<Rightarrow> OverlayState \<times> jsvalue" where
  "overlay_descend context node nextContainerId nextPath child st =
     (if hasParameterizedChildren node \<and> children node \<noteq> None \<and> child \<noteq> JNull then
        (case array_elems (ov_heap st) child of
           Some es \<Rightarrow>
             (case alloc (ov_heap st) (JArray es []) of
                (h1, copy) \<Rightarrow>
                  (case overlay_elements context (length (ov_heap st)) nextContainerId
                          (the (children node)) nextPath (length es) (h1, ov_queue st) of
                     (h2, queue2) \<Rightarrow> (st\<lparr>ov_heap := h2, ov_queue := queue2\<rparr>, copy)))
         | None \<Rightarrow>
             (case wrapValue context (ov_heap st) child of
                (h1, w) \<Rightarrow>
                  (st\<lparr>ov_heap := h1,
                      ov_queue :=
                        OverlayWalkNode w nextContainerId (the (children node)) nextPath
                          # ov_queue st\<rparr>, w)))
      else (st, child))"

text \<open>The end of the loop body: the test above, then \<open>value[key] = child\<close>, the
  write under the response key.\<close>

definition overlay_child ::
  "CacheContext \<Rightarrow> jsvalue \<Rightarrow> string \<Rightarrow> ParsedQueryNode \<Rightarrow> NodeId \<Rightarrow> PathPart list \<Rightarrow> jsvalue
     \<Rightarrow> OverlayState \<Rightarrow> OverlayState" where
  "overlay_child context v key node nextContainerId nextPath child st =
     (case overlay_descend context node nextContainerId nextPath child st of
        (st1, child1) \<Rightarrow>
          (case write_prop (ov_heap st1) v key child1 of
             Inl e \<Rightarrow> st1\<lparr>ov_thrown := Some e\<rparr>
           | Inr h' \<Rightarrow> st1\<lparr>ov_heap := h'\<rparr>))"

text \<open>The lookup of a parameterized field: the snapshot of its synthetic id, or else
  of the id a redirect gives.  \<open>Inr None\<close> is "still no snapshot".\<close>

definition resolve_parameterized ::
  "Imports \<Rightarrow> CacheContext \<Rightarrow> GraphSnapshot \<Rightarrow> heap \<Rightarrow> jsvalue \<Rightarrow> NodeId \<Rightarrow> string
     \<Rightarrow> FieldArguments \<Rightarrow> NodeId \<Rightarrow> error + (NodeId \<times> NodeSnapshot) option" where
  "resolve_parameterized imp context snapshot h v cid fieldName a childId =
     (case getNodeSnapshot snapshot childId of
        Some childSnapshot \<Rightarrow> Inr (Some (childId, childSnapshot))
      | None \<Rightarrow>
          (case read_prop h v ''__typename'' of
             Inl e \<Rightarrow> Inl e
           | Inr tn \<Rightarrow>
               (let typeName = (if \<not> truthy tn \<and> cid = QueryRoot imp then JStr ''Query'' else tn)
                in case resolverRedirects context typeName fieldName of
                     None \<Rightarrow> Inr None
                   | Some redirect \<Rightarrow>
                       (case redirect a of
                          None \<Rightarrow> Inr None
                        | Some rid \<Rightarrow>
                            (case getNodeSnapshot snapshot rid of
                               None \<Rightarrow> Inr None
                             | Some childSnapshot \<Rightarrow> Inr (Some (rid, childSnapshot)))))))"

text \<open>\<open>fieldName = node.schemaName ? node.schemaName : key\<close>: the response key is an
  alias when a schema name is declared.\<close>

definition fieldNameFor :: "string \<Rightarrow> ParsedQueryNode \<Rightarrow> string" where
  "fieldNameFor key node =
     (case schemaName node of
        Some sn \<Rightarrow> if sn \<noteq> [] then sn else key
      | None \<Rightarrow> key)"

text \<open>The body of \<open>for (const key in parsedMap)\<close> for one key.\<close>

definition overlay_field ::
  "Imports \<Rightarrow> CacheContext \<Rightarrow> GraphSnapshot \<Rightarrow> jsvalue \<Rightarrow> NodeId \<Rightarrow> PathPart list
     \<Rightarrow> string \<times> ParsedQueryNode \<Rightarrow> OverlayState \<Rightarrow> OverlayState" where
  "overlay_field imp context snapshot v cid pth kn st =
     (case kn of (key, node) \<Rightarrow>
       (let fieldName = fieldNameFor key node
        in case args node of
             Some a \<Rightarrow>
               (case resolve_parameterized imp context snapshot (ov_heap st) v cid fieldName a
                       (nodeIdForParameterizedValue imp cid (pth @ [PathKey fieldName]) a) of
                  Inl e \<Rightarrow> st\<lparr>ov_thrown := Some e\<rparr>
                | Inr None \<Rightarrow> st
                | Inr (Some (childId, childSnapshot)) \<Rightarrow>
                    overlay_child context v key node childId [] (data childSnapshot)
                      (st\<lparr>ov_dynamicNodeIds := insert childId (ov_dynamicNodeIds st)\<rparr>))
           | None \<Rightarrow>
               (case read_prop (ov_heap st) v fieldName of
                  Inl e \<Rightarrow> st\<lparr>ov_thrown := Some e\<rparr>
                | Inr child \<Rightarrow>
                    overlay_child context v key node cid (pth @ [PathKey fieldName]) child st)))"

fun overlay_fields ::
  "Imports \<Rightarrow> CacheContext \<Rightarrow> GraphSnapshot \<Rightarrow> jsvalue \<Rightarrow> NodeId \<Rightarrow> PathPart list
     \<Rightarrow> ParsedQuery \<Rightarrow> OverlayState \<Rightarrow> OverlayState" where
  "overlay_fields imp context snapshot v cid pth [] st = st"
| "overlay_fields imp context snapshot v cid pth (kn # rest) st =
     (let st' = overlay_field imp context snapshot v cid pth kn st
      in if ov_thrown st' \<noteq> None then st'
         else overlay_fields imp context snapshot v cid pth rest st')"

text \<open>\<open>if (valueId) { containerId = valueId; path = []; }\<close>: the container and the
  path a popped node's fields are resolved against.\<close>

definition containerOf :: "CacheContext \<Rightarrow> heap \<Rightarrow> OverlayWalkNode \<Rightarrow> NodeId" where
  "containerOf context h walkNode =
     (let valueId = entityIdForValue context h (walkValue walkNode)
      in if id_truthy valueId then the valueId else containerId walkNode)"

definition pathOf :: "CacheContext \<Rightarrow> heap \<Rightarrow> OverlayWalkNode \<Rightarrow> PathPart list" where
  "pathOf context h walkNode =
     (let valueId = entityIdForValue context h (walkValue walkNode)
      in if id_truthy valueId then [] else path walkNode)"

text \<open>One iteration of \<open>while (queue.length)\<close> on the popped node.\<close>

definition overlay_node ::
  "Imports \<Rightarrow> CacheContext \<Rightarrow> GraphSnapshot \<Rightarrow> OverlayWalkNode \<Rightarrow> OverlayState \<Rightarrow> OverlayState" where
  "overlay_node imp context snapshot walkNode st =
     overlay_fields imp context snapshot (walkValue walkNode)
       (containerOf context (ov_heap st) walkNode) (pathOf context (ov_heap st) walkNode)
       (parsedMap walkNode) st"

text \<open>The loop ends because every node it queues carries a compiled subtree that lies
  strictly below the one of the node just popped: the multiset of the weights of
  the queued subtrees decreases in the multiset order.\<close>

fun node_weight :: "ParsedQueryNode \<Rightarrow> nat" where
  "node_weight (ParsedQueryNode sel ch sn ar hp) =
     Suc (case ch of None \<Rightarrow> 0 | Some c \<Rightarrow> sum_list (map (\<lambda>kn. node_weight (snd kn)) c))"

definition pq_weight :: "ParsedQuery \<Rightarrow> nat" where
  "pq_weight pq = sum_list (map (\<lambda>kn. node_weight (snd kn)) pq)"

lemma child_weight_less:
  assumes "kn \<in> set pq" and "children (snd kn) = Some c"
  shows "pq_weight c < pq_weight pq"
proof -
  have "node_weight (snd kn) = Suc (pq_weight c)"
    using assms(2) by (cases "snd kn") (simp add: pq_weight_def)
  moreover have "node_weight (snd kn) \<le> pq_weight pq"
    unfolding pq_weight_def using assms(1)
    by (induction pq) auto
  ultimately show ?thesis by simp
qed

definition pushed_below :: "ParsedQuery \<Rightarrow> OverlayWalkNode list \<Rightarrow> bool" where
  "pushed_below pq new = (\<forall>x \<in> set new. pq_weight (parsedMap x) < pq_weight pq)"

lemma overlay_elements_queue:
  "\<exists>new. snd (overlay_elements context ac cid ch np i (h, queue)) = new @ queue \<and>
         (\<forall>x \<in> set new. parsedMap x = ch)"
proof (induction i arbitrary: h queue)
  case 0
  then show ?case by simp
next
  case (Suc i)
  show ?case
  proof (cases "elem_at h ac i = JNull")
    case True
    then show ?thesis using Suc.IH[of h queue] by simp
  next
    case False
    obtain h1 w where w: "wrapValue context h (elem_at h ac i) = (h1, w)" by force
    from Suc.IH[of "write_elem h1 ac i w" "OverlayWalkNode w cid ch (np @ [PathIndex i]) # queue"]
    obtain new where "snd (overlay_elements context ac cid ch np i
        (write_elem h1 ac i w, OverlayWalkNode w cid ch (np @ [PathIndex i]) # queue)) =
          new @ OverlayWalkNode w cid ch (np @ [PathIndex i]) # queue"
       and "\<forall>x \<in> set new. parsedMap x = ch" by blast
    then show ?thesis using False w
      by (intro exI[of _ "new @ [OverlayWalkNode w cid ch (np @ [PathIndex i])]"]) simp
  qed
qed

lemma overlay_child_queue:
  "\<exists>new. ov_queue (overlay_child context v key node ncid np child st) = new @ ov_queue st \<and>
         (\<forall>x \<in> set new. children node = Some (parsedMap x))"
proof (cases "hasParameterizedChildren node \<and> children node \<noteq> None \<and> child \<noteq> JNull")
  case False
  then show ?thesis
    by (intro exI[of _ "[]"]) (auto simp: overlay_child_def overlay_descend_def split: sum.splits)
next
  case True
  then obtain ch where ch: "children node = Some ch" by auto
  show ?thesis
  proof (cases "array_elems (ov_heap st) child")
    case None
    obtain h1 w where "wrapValue context (ov_heap st) child = (h1, w)" by force
    with True None ch show ?thesis
      by (intro exI[of _ "[OverlayWalkNode w ncid ch np]"])
         (auto simp: overlay_child_def overlay_descend_def split: sum.splits)
  next
    case (Some es)
    obtain h2 q2 where e: "overlay_elements context (length (ov_heap st)) ncid ch np (length es)
        (ov_heap st @ [JArray es []], ov_queue st) = (h2, q2)" by force
    from overlay_elements_queue[of "context" "length (ov_heap st)" ncid ch np "length es"
        "ov_heap st @ [JArray es []]" "ov_queue st"] e
    obtain new where "q2 = new @ ov_queue st" "\<forall>x \<in> set new. parsedMap x = ch" by auto
    with True Some ch e show ?thesis
      by (intro exI[of _ new]) (auto simp: overlay_child_def overlay_descend_def alloc_def split: sum.splits)
  qed
qed

lemma overlay_field_queue:
  "\<exists>new. ov_queue (overlay_field imp context snapshot v cid pth kn st) = new @ ov_queue st \<and>
         (\<forall>x \<in> set new. children (snd kn) = Some (parsedMap x))"
proof -
  obtain key node where kn: "kn = (key, node)" by (cases kn)
  define P where "P = (\<lambda>st'::OverlayState. \<exists>new. ov_queue st' = new @ ov_queue st \<and>
         (\<forall>x \<in> set new. children node = Some (parsedMap x)))"
  have triv: "P (st\<lparr>ov_thrown := e\<rparr>)" "P st" for e
    unfolding P_def by (intro exI[of _ "[]"], simp)+
  have ch: "P (overlay_child context v key node ncid np child st2)"
    if "ov_queue st2 = ov_queue st" for ncid np child st2
    unfolding P_def using overlay_child_queue[of "context" v key node ncid np child st2] that
    by simp
  have "P (overlay_field imp context snapshot v cid pth (key, node) st)"
    unfolding overlay_field_def
    by (auto simp: Let_def triv ch split: option.splits sum.splits prod.splits)
  then show ?thesis unfolding kn P_def by simp
qed

lemma overlay_fields_queue:
  "\<exists>new. ov_queue (overlay_fields imp context snapshot v cid pth pq st) = new @ ov_queue st \<and>
         (\<forall>x \<in> set new. \<exists>kn \<in> set pq. children (snd kn) = Some (parsedMap x))"
proof (induction pq arbitrary: st)
  case Nil
  then show ?case by simp
next
  case (Cons kn rest)
  obtain new1 where n1: "ov_queue (overlay_field imp context snapshot v cid pth kn st) = new1 @ ov_queue st"
      "\<forall>x \<in> set new1. children (snd kn) = Some (parsedMap x)"
    using overlay_field_queue by blast
  show ?case
  proof (cases "ov_thrown (overlay_field imp context snapshot v cid pth kn st) \<noteq> None")
    case True
    with n1 show ?thesis by (intro exI[of _ new1]) (auto simp: Let_def)
  next
    case False
    from Cons.IH[of "overlay_field imp context snapshot v cid pth kn st"]
    obtain new2 where n2: "ov_queue (overlay_fields imp context snapshot v cid pth rest
         (overlay_field imp context snapshot v cid pth kn st)) =
           new2 @ ov_queue (overlay_field imp context snapshot v cid pth kn st)"
      "\<forall>x \<in> set new2. \<exists>kn \<in> set rest. children (snd kn) = Some (parsedMap x)" by blast
    with n1 False show ?thesis
      by (intro exI[of _ "new2 @ new1"]) (auto simp: Let_def)
  qed
qed

lemma overlay_node_queue:
  "\<exists>new. ov_queue (overlay_node imp context snapshot wn st) = new @ ov_queue st \<and>
         pushed_below (parsedMap wn) new"
proof -
  have "\<exists>new. ov_queue (overlay_fields imp context snapshot v cid pth (parsedMap wn) st) = new @ ov_queue st \<and>
         pushed_below (parsedMap wn) new" for v cid pth
    using overlay_fields_queue[of imp "context" snapshot v cid pth "parsedMap wn" st]
    unfolding pushed_below_def by (metis child_weight_less)
  then show ?thesis by (simp add: overlay_node_def Let_def)
qed

definition queue_weights :: "OverlayState \<Rightarrow> nat multiset" where
  "queue_weights st = mset (map (\<lambda>x. pq_weight (parsedMap x)) (ov_queue st))"

lemma overlay_node_decreases:
  assumes "ov_queue st = wn # rest"
  shows "(queue_weights (overlay_node imp context snapshot wn (st\<lparr>ov_queue := rest\<rparr>)),
          queue_weights st) \<in> mult1 {(a, b). a < b}"
proof -
  obtain new where new: "ov_queue (overlay_node imp context snapshot wn (st\<lparr>ov_queue := rest\<rparr>)) = new @ rest"
     "pushed_below (parsedMap wn) new"
    using overlay_node_queue[of imp "context" snapshot wn "st\<lparr>ov_queue := rest\<rparr>"] by auto
  show ?thesis
    unfolding mult1_def queue_weights_def
    apply clarsimp
    apply (rule exI[of _ "pq_weight (parsedMap wn)"])
    apply (rule exI[of _ "mset (map (\<lambda>x. pq_weight (parsedMap x)) rest)"])
    apply (rule conjI)
     apply (simp add: assms)
    apply (rule exI[of _ "mset (map (\<lambda>x. pq_weight (parsedMap x)) new)"])
    using new by (auto simp: pushed_below_def)
qed

text \<open>The loop \<open>while (queue.length)\<close>.\<close>

function overlay_loop ::
  "Imports \<Rightarrow> CacheContext \<Rightarrow> GraphSnapshot \<Rightarrow> OverlayState \<Rightarrow> OverlayState" where
  "overlay_loop imp context snapshot st =
     (case ov_queue st of
        [] \<Rightarrow> st
      | walkNode # rest \<Rightarrow>
          (let st' = overlay_node imp context snapshot walkNode (st\<lparr>ov_queue := rest\<rparr>)
           in if ov_thrown st' \<noteq> None then st'
              else overlay_loop imp context snapshot st'))"
  by pat_completeness auto
termination
proof (relation "inv_image (mult1 {(a, b). a < b}) (\<lambda>(imp, context, snapshot, st). queue_weights st)")
  show "wf (inv_image (mult1 {(a, b). a < b}) (\<lambda>(imp, context, snapshot, st). queue_weights st))"
    by (intro wf_inv_image wf_mult1 wf_less)
next
  fix imp ctx snapshot st walkNode rest st'
  assume "ov_queue st = walkNode # rest"
    and "st' = overlay_node imp ctx snapshot walkNode (st\<lparr>ov_queue := rest\<rparr>)"
  then show "((imp, ctx, snapshot, st'), (imp, ctx, snapshot, st))
      \<in> inv_image (mult1 {(a, b). a < b}) (\<lambda>(imp, context, snapshot, st). queue_weights st)"
    using overlay_node_decreases by simp
qed

declare overlay_loop.simps [simp del]

text \<open>\<open>_walkAndOverlayDynamicValues\<close>: the final state of the loop and the value
  returned (which is meaningful when nothing was thrown).\<close>

definition walkAndOverlayDynamicValues ::
  "Imports \<Rightarrow> CacheContext \<Rightarrow> OperationInstance \<Rightarrow> GraphSnapshot \<Rightarrow> heap \<Rightarrow> jsvalue
     \<Rightarrow> NodeId set \<Rightarrow> OverlayState \<times> jsvalue" where
  "walkAndOverlayDynamicValues imp context query snapshot h res dyn =
     (case getNodeSnapshot snapshot (rootId query) of
        None \<Rightarrow>
          (\<lparr>ov_heap = h, ov_queue = [], ov_dynamicNodeIds = dyn, ov_thrown = None\<rparr>, res)
      | Some rootSnapshot \<Rightarrow>
          (case wrapValue context h res of
             (h1, newResult) \<Rightarrow>
               (overlay_loop imp context snapshot
                  \<lparr>ov_heap = h1,
                   ov_queue = [OverlayWalkNode newResult (rootId query) (parsedQuery query) []],
                   ov_dynamicNodeIds = dyn, ov_thrown = None\<rparr>,
                newResult)))"

section \<open>The read orchestrator\<close>

text \<open>\<open>{} as Partial<QueryResultWithNodeIds>\<close>.\<close>

definition empty_result :: QueryResult where
  "empty_result =
     \<lparr>result = JUndefined, complete = None, entityIds = None, dynamicNodeIds = None,
      partitionedQuery = None\<rparr>"

text \<open>The memoized result is an object that \<open>read\<close> puts into the table first and
  fills in afterwards; whatever it has written when it returns or throws is what the
  table holds then.\<close>

definition cache_set :: "GraphSnapshot \<Rightarrow> OperationInstance \<Rightarrow> QueryResult \<Rightarrow> GraphSnapshot" where
  "cache_set snapshot operation queryResult =
     snapshot\<lparr>readCache := (readCache snapshot)(operation \<mapsto> queryResult)\<rparr>"

text \<open>The block \<open>if (!queryResult.result) { ... }\<close>: the store, the result object, and
  either the exception thrown or \<open>missingFields\<close> with \<open>cacheHit = false\<close>.  \<open>None\<close>
  when the walk does not return.\<close>

definition read_compute ::
  "Imports \<Rightarrow> CacheContext \<Rightarrow> OperationInstance \<Rightarrow> GraphSnapshot \<Rightarrow> bool \<Rightarrow> heap
     \<Rightarrow> QueryResult \<Rightarrow> (heap \<times> QueryResult \<times> (error + SelectionNode list \<times> bool)) option" where
  "read_compute imp context operation snapshot includeNodeIds h queryResult =
     (let qr1 = queryResult\<lparr>result := getNodeData snapshot (rootId operation)\<rparr>
      in case
           (if \<not> isStatic operation then
              (case walkAndOverlayDynamicValues imp context operation snapshot h (result qr1) {}
               of (st, r) \<Rightarrow>
                 (case ov_thrown st of
                    Some e \<Rightarrow> (ov_heap st, qr1, Some e)
                  | None \<Rightarrow>
                      (ov_heap st,
                       qr1\<lparr>result := r, dynamicNodeIds := Some (ov_dynamicNodeIds st)\<rparr>,
                       None)))
            else (h, qr1, None))
         of
           (h1, qr2, Some e) \<Rightarrow> Some (h1, qr2, Inl e)
         | (h1, qr2, None) \<Rightarrow>
             (let qr3 = qr2\<lparr>entityIds := (if includeNodeIds then Some {} else None)\<rparr>
              in case visitSelection context h1 operation (result qr3) (entityIds qr3) of
                   None \<Rightarrow> None
                 | Some visitResult \<Rightarrow>
                     Some (h1,
                           qr3\<lparr>complete := Some (v_complete visitResult),
                               entityIds := v_nodeIds visitResult\<rparr>,
                           Inr (v_missingFields visitResult, False))))"

text \<open>The block \<open>if (includeNodeIds && !queryResult.entityIds) { ... }\<close>.\<close>

definition read_entity_ids ::
  "CacheContext \<Rightarrow> OperationInstance \<Rightarrow> heap \<Rightarrow> QueryResult
     \<Rightarrow> (QueryResult \<times> SelectionNode list \<times> bool) option" where
  "read_entity_ids context operation h queryResult =
     (case visitSelection context h operation (result queryResult) (Some {}) of
        None \<Rightarrow> None
      | Some visitResult \<Rightarrow>
          Some (queryResult\<lparr>complete := Some (v_complete visitResult),
                            entityIds := v_nodeIds visitResult\<rparr>,
                v_missingFields visitResult, False))"

text \<open>\<open>read\<close>.  It returns the store, the snapshot with its memoization table, and
  either the exception thrown or the query result together with the \<open>cacheHit\<close>
  flag it reports to the tracer; \<open>None\<close> when it does not return.  The tracer
  hooks themselves (\<open>readStart\<close>, \<open>readEnd\<close>) only observe and are left out.\<close>

definition read ::
  "Imports \<Rightarrow> CacheContext \<Rightarrow> RawOperation \<Rightarrow> GraphSnapshot \<Rightarrow> bool \<Rightarrow> heap
     \<Rightarrow> (heap \<times> GraphSnapshot \<times> (error + QueryResult \<times> bool)) option" where
  "read imp context raw snapshot includeNodeIds h =
     (case parseOperation context raw of
        Inl e \<Rightarrow> Some (h, snapshot, Inl e)
      | Inr operation \<Rightarrow>
          (let queryResult =
                 (case readCache snapshot operation of Some q \<Rightarrow> q | None \<Rightarrow> empty_result)
           in case
                (if \<not> truthy (result queryResult)
                 then read_compute imp context operation snapshot includeNodeIds h queryResult
                 else Some (h, queryResult, Inr ([], True)))
              of
                None \<Rightarrow> None
              | Some (h1, qr1, Inl e) \<Rightarrow> Some (h1, cache_set snapshot operation qr1, Inl e)
              | Some (h1, qr1, Inr (missing1, hit1)) \<Rightarrow>
                  (case
                     (if includeNodeIds \<and> entityIds qr1 = None
                      then read_entity_ids context operation h1 qr1
                      else Some (qr1, missing1, hit1))
                   of
                     None \<Rightarrow> None
                   | Some (qr2, missingFields, cacheHit) \<Rightarrow>
                       (if \<not> truthy (result qr2) \<or> length missingFields = 0 then
                          (let qr3 = qr2\<lparr>partitionedQuery := Some (document raw)\<rparr>
                           in Some (h1, cache_set snapshot operation qr3, Inr (qr3, cacheHit)))
                        else
                          (case partitionQuery imp missingFields raw of
                             Inl e \<Rightarrow> Some (h1, cache_set snapshot operation qr2, Inl e)
                           | Inr partitioned \<Rightarrow>
                               (let qr3 = qr2\<lparr>partitionedQuery := Some (document partitioned)\<rparr>
                                in Some (h1, cache_set snapshot operation qr3,
                                         Inr (qr3, cacheHit))))))))"

section \<open>Worked queries\<close>

text \<open>Selections without alias, arguments or directives, and their compiled nodes as
  the compiler's tests show them: \<open>new ParsedQueryNode(selection)\<close> for a leaf and
  \<open>new ParsedQueryNode(selection, children)\<close> for a field with sub-selections.\<close>

definition leafField :: "nat \<Rightarrow> string \<Rightarrow> SelectionNode" where
  "leafField r n = Field r None n [] [] None"

definition objectField :: "nat \<Rightarrow> string \<Rightarrow> SelectionNode list \<Rightarrow> SelectionNode" where
  "objectField r n sub = Field r None n [] [] (Some sub)"

definition parsedLeaf :: "SelectionNode \<Rightarrow> ParsedQueryNode" where
  "parsedLeaf sel = ParsedQueryNode sel None None None False"

definition parsedObject :: "SelectionNode \<Rightarrow> ParsedQuery \<Rightarrow> ParsedQueryNode" where
  "parsedObject sel ch = ParsedQueryNode sel (Some ch) None None False"

text \<open>A context without entity ids, transformer or redirects, whose compiler returns
  the given operation.\<close>

definition plainContext :: "OperationInstance \<Rightarrow> CacheContext" where
  "plainContext op =
     \<lparr>parseOperation = (\<lambda>raw. Inr op), entityIdForValue = (\<lambda>h v. None),
      entityTransformer = None, resolverRedirects = (\<lambda>t f. None)\<rparr>"

text \<open>Imports that include every selection, take the first definition of a document
  as its main definition, and derive the id of a parameterized field from the
  container and the last path component.\<close>

fun lastKey :: "PathPart list \<Rightarrow> string" where
  "lastKey [] = []"
| "lastKey [PathKey k] = k"
| "lastKey [PathIndex i] = []"
| "lastKey (p # q # ps) = lastKey (q # ps)"

definition plainImports :: Imports where
  "plainImports =
     \<lparr>getMainDefinition = (\<lambda>d. case definitions d of [] \<Rightarrow> None | x # xs \<Rightarrow> Some x),
      shouldInclude = (\<lambda>sel vars. True),
      nodeIdForParameterizedValue = (\<lambda>cid pth a. cid @ ''.'' @ lastKey pth),
      QueryRoot = ''ROOT_QUERY''\<rparr>"

text \<open>The query \<open>{ foo { bar { fizz } baz { buzz } } }\<close>, over the references of its
  five field nodes, its document, and its compiled form as the compiler's test
  "parses queries with nested fields" gives it, each compiled node holding its own
  selection node.\<close>

definition fizzField :: "nat \<Rightarrow> SelectionNode" where
  "fizzField r = leafField r ''fizz''"

definition buzzField :: "nat \<Rightarrow> SelectionNode" where
  "buzzField r = leafField r ''buzz''"

definition barField :: "nat \<Rightarrow> nat \<Rightarrow> SelectionNode" where
  "barField r r' = objectField r ''bar'' [fizzField r']"

definition bazField :: "nat \<Rightarrow> nat \<Rightarrow> SelectionNode" where
  "bazField r r' = objectField r ''baz'' [buzzField r']"

definition fooField :: "nat \<Rightarrow> nat \<Rightarrow> nat \<Rightarrow> nat \<Rightarrow> nat \<Rightarrow> SelectionNode" where
  "fooField r1 r2 r3 r4 r5 = objectField r1 ''foo'' [barField r2 r4, bazField r3 r5]"

definition queryOf :: "SelectionNode list \<Rightarrow> RawOperation" where
  "queryOf sels =
     \<lparr>document = \<lparr>definitions = [OperationDefinition ''query'' None sels]\<rparr>,
      variables = (\<lambda>x. None)\<rparr>"

definition fooParsed :: "nat \<Rightarrow> nat \<Rightarrow> nat \<Rightarrow> nat \<Rightarrow> nat \<Rightarrow> ParsedQuery" where
  "fooParsed r1 r2 r3 r4 r5 =
     [(''foo'', parsedObject (fooField r1 r2 r3 r4 r5)
        [(''bar'', parsedObject (barField r2 r4) [(''fizz'', parsedLeaf (fizzField r4))]),
         (''baz'', parsedObject (bazField r3 r5) [(''buzz'', parsedLeaf (buzzField r5))])])]"

text \<open>A static operation on the query root with the given compiled query.\<close>

definition staticOperation :: "ParsedQuery \<Rightarrow> OperationInstance" where
  "staticOperation pq =
     \<lparr>rootId = ''ROOT_QUERY'', isStatic = True, parsedQuery = pq, info_parsed = pq\<rparr>"

definition initialVisit :: VisitState where
  "initialVisit = \<lparr>v_complete = True, v_missingFields = [], v_nodeIds = None\<rparr>"

section \<open>The walker and the visitor, step by step\<close>

lemma walk_loop_Nil: "walk_loop h vis [] s = Some s"
  by (subst walk_loop.simps) simp

lemma walk_loop_Cons:
  "walk_loop h vis (n # rest) s =
     (case walk_step h vis n s of (pushed, s') \<Rightarrow> walk_loop h vis (pushed @ rest) s')"
  by (subst walk_loop.simps) simp

lemma child_walk_nodes_not_object:
  "\<not> isObject v \<Longrightarrow> child_walk_nodes h v pq =
     map (\<lambda>(k, nd). OperationWalkNode (the (children nd)) (Some (selection nd)) JUndefined)
       (filter (\<lambda>(k, nd). children nd \<noteq> None) pq)"
  by (induction pq) (auto simp: get_def split: option.splits jsvalue.splits)

text \<open>
  \<^bold>\<open>C3.\<close>  When the walker reaches a node whose value is \<open>undefined\<close> (and the compiled
  subtree has fields, so that the visitor is called), the visitor sets \<open>complete\<close> to
  false; if there is an enclosing selection node it appends that node, the selection
  of the enclosing field, to the missing selections, and at the operation root it
  appends nothing; and the walk is stopped below the node: the iteration pushes
  nothing.
\<close>

theorem undefined_value_is_flagged_and_pruned:
  assumes "parent n = JUndefined" and "parsedOperation n \<noteq> []"
  shows "walk_step h (visitor ctx h) n st =
     ([], st\<lparr>v_complete := False,
             v_missingFields :=
               (case parentSelection n of
                  Some p \<Rightarrow> v_missingFields st @ [p]
                | None \<Rightarrow> v_missingFields st)\<rparr>)"
  using assms
  by (simp add: walk_step_def array_elems_def visitor_def split: option.splits)

theorem undefined_value_is_flagged_and_pruned_witness:
  "walk_step [] (visitor (plainContext (staticOperation (fooParsed 1 2 3 4 5))) [])
       (OperationWalkNode [(''buzz'', parsedLeaf (buzzField 5))] (Some (bazField 3 5))
          JUndefined)
       initialVisit =
     ([], \<lparr>v_complete = False, v_missingFields = [bazField 3 5], v_nodeIds = None\<rparr>)"
  using undefined_value_is_flagged_and_pruned
    [where n = "OperationWalkNode [(''buzz'', parsedLeaf (buzzField 5))] (Some (bazField 3 5))
                  JUndefined"
       and h = "[]" and ctx = "plainContext (staticOperation (fooParsed 1 2 3 4 5))"
       and st = initialVisit]
  by (simp add: initialVisit_def)

text \<open>
  \<^bold>\<open>C5.\<close>  A node whose value is \<open>null\<close> is skipped by the walker whatever compiled
  subtree is paired with it: the iteration calls no visitor, pushes nothing and
  leaves the visitor's state (completeness, missing selections, ids) as it is, so
  the walk goes on exactly as if the node had not been on the stack.
\<close>

theorem null_short_circuits_the_walk:
  "walk_step h vis (OperationWalkNode pq ps JNull) s = ([], s) \<and>
   walk_loop h vis (OperationWalkNode pq ps JNull # stack) s = walk_loop h vis stack s"
  by (simp add: walk_loop_Cons walk_step_def)

theorem null_short_circuits_the_walk_witness:
  "walk_loop [] (visitor (plainContext (staticOperation (fooParsed 1 2 3 4 5))) [])
     [OperationWalkNode [(''buzz'', parsedLeaf (buzzField 5))] (Some (bazField 3 5)) JNull]
     initialVisit = Some initialVisit"
  using null_short_circuits_the_walk
    [where h = "[]"
       and vis = "visitor (plainContext (staticOperation (fooParsed 1 2 3 4 5))) []"
       and pq = "[(''buzz'', parsedLeaf (buzzField 5))]"
       and ps = "Some (bazField 3 5)" and stack = "[]" and s = initialVisit]
  by (simp add: walk_loop_Nil)

text \<open>
  \<^bold>\<open>C4 (as the code has it).\<close>  When the walker reaches a node whose value is present
  but is no object (a scalar where the compiled node expects children), the visitor
  flags nothing at this level and does not stop the walk.  The walker then queues
  every child that has sub-selections of its own, each paired with \<open>undefined\<close>
  (\<open>get\<close> of a value that is no object), so that each of them is visited and dealt
  with as an undefined value; when no child has sub-selections, nothing is queued
  and the branch ends with nothing flagged.
\<close>

theorem scalar_in_place_of_object:
  assumes "parent n \<noteq> JUndefined" and "parent n \<noteq> JNull" and "\<not> isObject (parent n)"
    and "parsedOperation n \<noteq> []"
  shows "walk_step h (visitor ctx h) n st =
     (rev (map (\<lambda>(k, nd). OperationWalkNode (the (children nd)) (Some (selection nd)) JUndefined)
             (filter (\<lambda>(k, nd). children nd \<noteq> None) (parsedOperation n))), st)"
  using assms
  by (cases "parent n")
     (simp_all add: walk_step_def array_elems_def visitor_def child_walk_nodes_not_object)

theorem scalar_in_place_of_object_witness:
  "walk_step [] (visitor (plainContext (staticOperation (fooParsed 1 2 3 4 5))) [])
     (OperationWalkNode [(''buzz'', parsedLeaf (buzzField 5))] (Some (bazField 3 5)) (JNum 5))
     initialVisit = ([], initialVisit)"
  using scalar_in_place_of_object
    [where n = "OperationWalkNode [(''buzz'', parsedLeaf (buzzField 5))] (Some (bazField 3 5))
                  (JNum 5)"
       and h = "[]" and ctx = "plainContext (staticOperation (fooParsed 1 2 3 4 5))"
       and st = initialVisit]
  by (simp add: parsedLeaf_def)

text \<open>The claim as stated fails: in \<open>{ foo { bar { fizz } baz { buzz } } }\<close> read
  against a root object whose \<open>foo\<close> is the number 5, the walk does not stop at
  \<open>foo\<close>; it goes on to \<open>bar\<close> and \<open>baz\<close> with \<open>undefined\<close> values, reports the result
  incomplete and flags both selections.\<close>

theorem scalar_in_place_of_object_counterexample:
  "visitSelection (plainContext (staticOperation (fooParsed 1 2 3 4 5)))
     [JObject [(''foo'', JNum 5)]] (staticOperation (fooParsed 1 2 3 4 5)) (JRef 0) None =
   Some \<lparr>v_complete = False, v_missingFields = [bazField 3 5, barField 2 4],
         v_nodeIds = None\<rparr>"
  by (simp add: visitSelection_def walkOperation_def staticOperation_def fooParsed_def
        walk_loop_Cons walk_loop_Nil walk_step_def array_elems_def cell_def visitor_def
        parsedObject_def parsedLeaf_def has_prop_def get_def)

section \<open>The partitioned document\<close>

lemma findMissing_kept:
  "s \<in> set (findMissingSelectionSets imp vars flds sels) \<Longrightarrow> kept_ok flds s"
proof (induction imp vars flds sels arbitrary: s rule: findMissingSelectionSets.induct)
  case (1 imp vars flds)
  then show ?case by simp
next
  case (2 imp vars flds sel rest)
  show ?case
  proof (cases "shouldInclude imp sel vars")
    case False
    with 2 show ?thesis by simp
  next
    case True
    show ?thesis
    proof (cases sel)
      case (Field r a n ar ds ss)
      show ?thesis
      proof (cases ss)
        case None
        with 2 True Field show ?thesis by (auto split: if_splits)
      next
        case (Some sub)
        with 2 True Field show ?thesis
          by (auto simp: Let_def split: if_splits)
      qed
    next
      case (FragmentSpread r n ds)
      with 2 True show ?thesis by simp
    next
      case (InlineFragment r t ds ss)
      with 2 True show ?thesis by simp
    qed
  qed
qed

text \<open>
  \<^bold>\<open>C10.\<close>  Whenever \<open>partitionQuery\<close> produces a document, for any list of missing
  selections, that document has exactly one definition: the main definition of the
  original document with a rebuilt selection set, so that every other definition
  (the fragment definitions) is gone.  Every selection kept in a rebuilt selection
  set is a field node, either one of the listed nodes kept as it is or a copy
  around a rebuilt, non-empty selection set; a fragment spread or an inline fragment
  is never kept, listed or not.
\<close>

theorem partitioned_document_shape:
  assumes "partitionQuery imp flds raw = Inr r"
  shows "\<exists>d. getMainDefinition imp (document raw) = Some d \<and>
             definitions (document r) =
               [with_selectionSet d
                  (findMissingSelectionSets imp (variables raw) flds (defSelectionSet d))] \<and>
             (\<forall>s \<in> set (findMissingSelectionSets imp (variables raw) flds (defSelectionSet d)).
                 kept_ok flds s)"
  using assms by (auto simp: partitionQuery_def findMissing_kept split: option.splits)

text \<open>A document with a query and a fragment definition; the query selects a scalar,
  an inline fragment, a fragment spread and a field with a sub-selection.  The inline
  fragment and the leaf \<open>d\<close> are listed as missing.\<close>

definition mixedDocument :: RawOperation where
  "mixedDocument =
     \<lparr>document =
        \<lparr>definitions =
           [OperationDefinition ''query'' None
              [leafField 1 ''a'',
               InlineFragment 2 (Some ''T'') [] [leafField 6 ''b''],
               FragmentSpread 3 ''F'' [],
               objectField 4 ''c'' [leafField 5 ''d'', leafField 7 ''e'']],
            FragmentDefinition ''F'' ''T'' [leafField 8 ''g'']]\<rparr>,
      variables = (\<lambda>x. None)\<rparr>"

theorem partitioned_document_shape_witness:
  "partitionQuery plainImports
      [InlineFragment 2 (Some ''T'') [] [leafField 6 ''b''], leafField 5 ''d'']
      mixedDocument =
     Inr (queryOf [objectField 4 ''c'' [leafField 5 ''d'']]) \<and>
   kept_ok [InlineFragment 2 (Some ''T'') [] [leafField 6 ''b''], leafField 5 ''d'']
     (objectField 4 ''c'' [leafField 5 ''d''])"
proof -
  have p: "partitionQuery plainImports
      [InlineFragment 2 (Some ''T'') [] [leafField 6 ''b''], leafField 5 ''d'']
      mixedDocument = Inr (queryOf [objectField 4 ''c'' [leafField 5 ''d'']])"
    by (simp add: partitionQuery_def plainImports_def mixedDocument_def queryOf_def
          leafField_def objectField_def listed_def)
  from partitioned_document_shape[OF p] show ?thesis
    using p by (simp add: plainImports_def mixedDocument_def leafField_def objectField_def
          listed_def)
qed

section \<open>Reading a partially stored query\<close>

lemma has_prop_object:
  "cell h a = JObject ps \<Longrightarrow> has_prop h (JRef a) k = (k \<in> set (map fst ps))"
  by (simp add: has_prop_def)

lemma get_object:
  "cell h a = JObject ps \<Longrightarrow> get h (JRef a) k = (case map_of ps k of Some x \<Rightarrow> x | None \<Rightarrow> JUndefined)"
  by (simp add: get_def)

lemma array_elems_object: "cell h a = JObject ps \<Longrightarrow> array_elems h (JRef a) = None"
  by (simp add: array_elems_def)

lemma array_elems_not_object: "\<not> isObject v \<Longrightarrow> array_elems h v = None"
  by (cases v) (simp_all add: array_elems_def)

text \<open>When is the value stored for a field with the one-leaf sub-selection
  \<open>{ k }\<close> all the checker asks for?  When it is \<open>null\<close>, a scalar, or an object that
  has \<open>k\<close>; or a list of such values.  (\<open>undefined\<close>, an object without \<open>k\<close> and a
  list inside a list are left out.)\<close>

definition holds_field :: "heap \<Rightarrow> string \<Rightarrow> jsvalue \<Rightarrow> bool" where
  "holds_field h k v =
     (case v of
        JUndefined \<Rightarrow> False
      | JRef a \<Rightarrow> (case cell h a of JObject ps \<Rightarrow> k \<in> set (map fst ps) | JArray es ps \<Rightarrow> False)
      | _ \<Rightarrow> True)"

definition present_with :: "heap \<Rightarrow> string \<Rightarrow> jsvalue \<Rightarrow> bool" where
  "present_with h k v =
     (case array_elems h v of
        Some es \<Rightarrow> (\<forall>e \<in> set es. holds_field h k e)
      | None \<Rightarrow> holds_field h k v)"

lemma walk_step_holds:
  assumes "holds_field h k e"
  shows "\<exists>s'. walk_step h (visitor ctx h) (OperationWalkNode [(k, parsedLeaf f)] ps e) s = ([], s') \<and>
           v_complete s' = v_complete s \<and> v_missingFields s' = v_missingFields s"
proof (cases e)
  case (JRef a)
  with assms obtain props where c: "cell h a = JObject props" "k \<in> set (map fst props)"
    by (auto simp: holds_field_def split: jsobject.splits)
  show ?thesis using c unfolding JRef
    by (auto simp: walk_step_def array_elems_def visitor_def has_prop_def parsedLeaf_def Let_def
          split: option.splits)
qed (use assms in \<open>auto simp: walk_step_def array_elems_def visitor_def holds_field_def parsedLeaf_def\<close>)

lemma walk_loop_hold:
  assumes "\<forall>e \<in> set es. holds_field h k e"
  shows "\<exists>s'. walk_loop h (visitor ctx h)
                 (map (OperationWalkNode [(k, parsedLeaf f)] ps) es @ rest) s =
               walk_loop h (visitor ctx h) rest s' \<and>
           v_complete s' = v_complete s \<and> v_missingFields s' = v_missingFields s"
  using assms
proof (induction es arbitrary: s)
  case Nil
  show ?case by (intro exI[of _ s]) simp
next
  case (Cons e es)
  from walk_step_holds[of h k e ctx f ps s] Cons.prems obtain s1 where
    s1: "walk_step h (visitor ctx h) (OperationWalkNode [(k, parsedLeaf f)] ps e) s = ([], s1)"
      "v_complete s1 = v_complete s" "v_missingFields s1 = v_missingFields s" by auto
  from Cons.IH[of s1] Cons.prems obtain s' where
    "walk_loop h (visitor ctx h) (map (OperationWalkNode [(k, parsedLeaf f)] ps) es @ rest) s1 =
       walk_loop h (visitor ctx h) rest s'"
    "v_complete s' = v_complete s1" "v_missingFields s' = v_missingFields s1" by auto
  with s1 show ?case by (auto simp: walk_loop_Cons)
qed

lemma walk_loop_present:
  assumes "present_with h k v" and "\<not> v_complete s" and "v_missingFields s = L"
  shows "\<exists>vs. walk_loop h (visitor ctx h) [OperationWalkNode [(k, parsedLeaf f)] ps v] s = Some vs \<and>
           \<not> v_complete vs \<and> v_missingFields vs = L"
proof (cases "array_elems h v")
  case None
  with assms(1) have "\<forall>e \<in> set [v]. holds_field h k e" by (simp add: present_with_def)
  from walk_loop_hold[OF this, of ctx f ps "[]" s] assms(2,3) show ?thesis
    by (auto simp: walk_loop_Nil)
next
  case (Some es)
  with assms(1) have h: "\<forall>e \<in> set es. holds_field h k e" by (simp add: present_with_def)
  have nn: "v \<noteq> JNull" using Some by (auto simp: array_elems_def)
  have "walk_loop h (visitor ctx h) [OperationWalkNode [(k, parsedLeaf f)] ps v] s =
        walk_loop h (visitor ctx h) (map (OperationWalkNode [(k, parsedLeaf f)] ps) es @ []) s"
    using Some nn by (simp add: walk_loop_Cons walk_step_def)
  with walk_loop_hold[OF h, of ctx f ps "[]" s] assms(2,3) show ?thesis
    by (auto simp: walk_loop_Nil)
qed

lemma visit_scenario:
  assumes d: "r2 \<noteq> r3"
    and parsed: "info_parsed operation = fooParsed r1 r2 r3 r4 r5"
    and root: "cell h a0 = JObject rootProps" "map_of rootProps ''foo'' = Some (JRef a1)"
    and foo: "cell h a1 = JObject fooProps" "map_of fooProps ''bar'' = Some barv"
      "''baz'' \<notin> set (map fst fooProps)"
    and bar: "present_with h ''fizz'' barv"
  shows "\<exists>vs. visitSelection ctx h operation (JRef a0) ids = Some vs \<and>
           \<not> v_complete vs \<and> v_missingFields vs = [bazField r3 r5, bazField r3 r5]"
proof -
  have k1: "''foo'' \<in> set (map fst rootProps)" using root(2) by (metis map_of_eq_None_iff option.distinct(1) set_map)
  have k2: "''bar'' \<in> set (map fst fooProps)" using foo(2) by (metis map_of_eq_None_iff option.distinct(1) set_map)
  have k3: "map_of fooProps ''baz'' = None" using foo(3) by (simp add: map_of_eq_None_iff)
  note wl = walk_loop_Cons[where n = "OperationWalkNode pq ps (JRef a)" for pq ps a]
            walk_loop_Cons[where n = "OperationWalkNode pq ps JUndefined" for pq ps]
  show ?thesis
    using k1 k2 k3 d parsed root foo
    apply (simp add: visitSelection_def walkOperation_def fooParsed_def
        wl walk_step_def array_elems_object array_elems_not_object visitor_def
        parsedObject_def has_prop_object get_object split: option.splits)
    apply (auto intro!: walk_loop_present[OF bar])
    done
qed


lemma walk_loop_invariant:
  assumes run: "walk_loop h vis stack s = Some s'"
    and init: "P s"
    and step: "\<And>n s pushed s1. P s \<Longrightarrow> walk_step h vis n s = (pushed, s1) \<Longrightarrow> P s1"
  shows "P s'"
proof -
  have "h = h \<longrightarrow> vis = vis \<longrightarrow> P s \<longrightarrow> P s'"
    apply (rule walk_loop.raw_induct
           [where P = "\<lambda>h' vis' stack s s'. h' = h \<longrightarrow> vis' = vis \<longrightarrow> P s \<longrightarrow> P s'", OF _ run])
    subgoal for loop h' vis' stack s s'
      apply (cases stack)
       apply simp
      apply (clarsimp split: prod.splits)
      using step by blast
    done
  with init show ?thesis by blast
qed

lemma visitor_nodeIds:
  "visitor ctx h st v flds ps = (b, st') \<Longrightarrow> (v_nodeIds st' = None) = (v_nodeIds st = None)"
proof -
  have cf: "v_nodeIds (check_fields h v flds s) = v_nodeIds s" for s
    by (induction flds) auto
  show "visitor ctx h st v flds ps = (b, st') \<Longrightarrow> (v_nodeIds st' = None) = (v_nodeIds st = None)"
    by (auto simp: visitor_def cf Let_def split: if_splits option.splits)
qed

lemma walk_step_nodeIds:
  "walk_step h (visitor ctx h) n s = (pushed, s1) \<Longrightarrow> (v_nodeIds s1 = None) = (v_nodeIds s = None)"
  by (auto simp: walk_step_def Let_def visitor_nodeIds split: if_splits option.splits prod.splits)

lemma visitSelection_nodeIds:
  assumes "visitSelection ctx h query res ids = Some vs"
  shows "(v_nodeIds vs = None) = (ids = None)"
proof -
  let ?s0 = "\<lparr>v_complete = True, v_missingFields = [],
        v_nodeIds =
          (case ids of
             Some i \<Rightarrow> Some (if res \<noteq> JUndefined then insert (rootId query) i else i)
           | None \<Rightarrow> None)\<rparr>"
  have "(v_nodeIds vs = None) = (v_nodeIds ?s0 = None)"
    using assms unfolding visitSelection_def walkOperation_def
    by (rule walk_loop_invariant[where P = "\<lambda>s. (v_nodeIds s = None) = (v_nodeIds ?s0 = None)"])
       (simp_all add: walk_step_nodeIds)
  then show ?thesis by (simp split: option.splits)
qed

text \<open>A store and a snapshot for \<open>{ foo { bar { fizz } baz { buzz } } }\<close>: the root
  object has \<open>foo\<close>, \<open>foo\<close> has \<open>bar\<close> with its \<open>fizz\<close>, and \<open>foo\<close> has no \<open>baz\<close>.\<close>

definition fooBarHeap :: heap where
  "fooBarHeap =
     [JObject [(''foo'', JRef 1)], JObject [(''bar'', JRef 2)], JObject [(''fizz'', JNum 1)]]"

definition rootSnapshotAt :: "jsvalue \<Rightarrow> GraphSnapshot" where
  "rootSnapshotAt v =
     \<lparr>nodes = (\<lambda>nid. if nid = ''ROOT_QUERY'' then Some \<lparr>data = v\<rparr> else None),
      readCache = (\<lambda>operation. None)\<rparr>"

text \<open>
  \<^bold>\<open>C1 (as the code has it).\<close>  Take the query \<open>{ foo { bar { fizz } baz { buzz } } }\<close>,
  whatever the references of its five field nodes, compiled as the compiler's test
  shows, and read it against a snapshot whose root object has \<open>foo\<close>, where \<open>foo\<close> is
  an object that has no \<open>baz\<close> and that has \<open>bar\<close> with what \<open>{ fizz }\<close> asks of it
  (\<open>bar\<close> is \<open>null\<close>, a scalar, an object that has \<open>fizz\<close>, or a list of these).  Let the
  read not be served from the memoization table: the table has no entry for the
  operation, or an entry without a result value.  Then \<open>read\<close> returns without a
  cache hit, \<open>complete\<close> is false, the partitioned document is the main definition
  with the selection set \<open>{ foo { baz { buzz } } }\<close>, and the missing selections
  collected on the result are the \<open>baz\<close> selection node and nothing else (the node
  is collected twice: once when \<open>foo\<close> is checked for its fields and once when \<open>baz\<close>
  is visited with an undefined value).
\<close>

theorem partial_read_scenario:
  assumes refs: "distinct [r1, r2, r3, r4, r5]"
    and parse: "parseOperation ctx raw = Inr operation"
    and static: "isStatic operation"
    and parsed: "info_parsed operation = fooParsed r1 r2 r3 r4 r5"
    and main: "getMainDefinition imp (document raw) =
                 Some (OperationDefinition kind nm [fooField r1 r2 r3 r4 r5])"
    and incl: "\<And>s. directives s = [] \<Longrightarrow> shouldInclude imp s (variables raw)"
    and first: "\<And>q. readCache snapshot operation = Some q \<Longrightarrow> \<not> truthy (result q)"
    and data: "getNodeData snapshot (rootId operation) = JRef a0"
    and root: "cell h a0 = JObject rootProps" "map_of rootProps ''foo'' = Some (JRef a1)"
    and foo: "cell h a1 = JObject fooProps" "map_of fooProps ''bar'' = Some barValue"
      "''baz'' \<notin> set (map fst fooProps)"
    and bar: "present_with h ''fizz'' barValue"
  shows "\<exists>qr snapshot' vs.
           read imp ctx raw snapshot inc h = Some (h, snapshot', Inr (qr, False)) \<and>
           complete qr = Some False \<and>
           partitionedQuery qr =
             Some ((document raw)
                     \<lparr>definitions :=
                        [OperationDefinition kind nm
                           [objectField r1 ''foo'' [bazField r3 r5]]]\<rparr>) \<and>
           visitSelection ctx h operation (result qr) None = Some vs \<and>
           set (v_missingFields vs) = {bazField r3 r5}"
proof -
  have r23: "r2 \<noteq> r3" using refs by simp
  obtain vs where vs: "visitSelection ctx h operation (JRef a0) (if inc then Some {} else None) = Some vs"
     "\<not> v_complete vs" "v_missingFields vs = [bazField r3 r5, bazField r3 r5]"
    using visit_scenario[OF r23 parsed root foo bar] by blast
  obtain vs0 where vs0: "visitSelection ctx h operation (JRef a0) None = Some vs0"
     "v_missingFields vs0 = [bazField r3 r5, bazField r3 r5]"
    using visit_scenario[OF r23 parsed root foo bar] by blast
  have inc_all: "shouldInclude imp (fooField r1 r2 r3 r4 r5) (variables raw)"
     "shouldInclude imp (barField r2 r4) (variables raw)"
     "shouldInclude imp (bazField r3 r5) (variables raw)"
     "shouldInclude imp (fizzField r4) (variables raw)"
    by (rule incl, simp add: fooField_def barField_def bazField_def fizzField_def objectField_def leafField_def)+
  have part: "findMissingSelectionSets imp (variables raw) [bazField r3 r5, bazField r3 r5]
        [fooField r1 r2 r3 r4 r5] = [objectField r1 ''foo'' [bazField r3 r5]]"
    using refs inc_all
    by (auto simp add: fooField_def barField_def bazField_def fizzField_def buzzField_def
          objectField_def leafField_def listed_def)
  have entity: "inc \<Longrightarrow> v_nodeIds vs \<noteq> None"
    using visitSelection_nodeIds[OF vs(1)] by simp
  define q0 where "q0 = (case readCache snapshot operation of Some q \<Rightarrow> q | None \<Rightarrow> empty_result)"
  have q0: "\<not> truthy (result q0)"
    unfolding q0_def using first by (auto simp: empty_result_def split: option.splits)
  then have q0': "truthy (result (case readCache snapshot operation of Some q \<Rightarrow> q
                                    | None \<Rightarrow> empty_result)) = False"
    by (simp add: q0_def)
  show ?thesis
    using vs vs0 part parse static data main entity
    by (auto simp: read_def q0' read_compute_def partitionQuery_def Let_def)
qed

text \<open>The same store with a list of a \<open>bar\<close> object and \<open>null\<close> at \<open>foo.bar\<close>.\<close>

definition fooBarListHeap :: heap where
  "fooBarListHeap =
     [JObject [(''foo'', JRef 1)], JObject [(''bar'', JRef 2)], JArray [JRef 3, JNull] [],
      JObject [(''fizz'', JNum 1)]]"

theorem partial_read_scenario_witness:
  "(\<exists>qr snapshot' vs.
       read plainImports (plainContext (staticOperation (fooParsed 1 2 3 4 5)))
         (queryOf [fooField 1 2 3 4 5]) (rootSnapshotAt (JRef 0)) False fooBarHeap =
         Some (fooBarHeap, snapshot', Inr (qr, False)) \<and>
       complete qr = Some False \<and>
       partitionedQuery qr =
         Some \<lparr>definitions =
                 [OperationDefinition ''query'' None [objectField 1 ''foo'' [bazField 3 5]]]\<rparr> \<and>
       visitSelection (plainContext (staticOperation (fooParsed 1 2 3 4 5))) fooBarHeap
         (staticOperation (fooParsed 1 2 3 4 5)) (result qr) None = Some vs \<and>
       set (v_missingFields vs) = {bazField 3 5}) \<and>
   (\<exists>qr snapshot' vs.
       read plainImports (plainContext (staticOperation (fooParsed 1 2 3 4 5)))
         (queryOf [fooField 1 2 3 4 5]) (rootSnapshotAt (JRef 0)) False fooBarListHeap =
         Some (fooBarListHeap, snapshot', Inr (qr, False)) \<and>
       complete qr = Some False \<and>
       partitionedQuery qr =
         Some \<lparr>definitions =
                 [OperationDefinition ''query'' None [objectField 1 ''foo'' [bazField 3 5]]]\<rparr> \<and>
       visitSelection (plainContext (staticOperation (fooParsed 1 2 3 4 5))) fooBarListHeap
         (staticOperation (fooParsed 1 2 3 4 5)) (result qr) None = Some vs \<and>
       set (v_missingFields vs) = {bazField 3 5})"
proof -
  have a: "\<exists>qr snapshot' vs.
       read plainImports (plainContext (staticOperation (fooParsed 1 2 3 4 5)))
         (queryOf [fooField 1 2 3 4 5]) (rootSnapshotAt (JRef 0)) False fooBarHeap =
         Some (fooBarHeap, snapshot', Inr (qr, False)) \<and>
       complete qr = Some False \<and>
       partitionedQuery qr =
         Some \<lparr>definitions =
                 [OperationDefinition ''query'' None [objectField 1 ''foo'' [bazField 3 5]]]\<rparr> \<and>
       visitSelection (plainContext (staticOperation (fooParsed 1 2 3 4 5))) fooBarHeap
         (staticOperation (fooParsed 1 2 3 4 5)) (result qr) None = Some vs \<and>
       set (v_missingFields vs) = {bazField 3 5}"
    using partial_read_scenario
    [where ?r1.0 = 1 and ?r2.0 = 2 and ?r3.0 = 3 and ?r4.0 = 4 and ?r5.0 = 5
       and ctx = "plainContext (staticOperation (fooParsed 1 2 3 4 5))"
       and raw = "queryOf [fooField 1 2 3 4 5]"
       and operation = "staticOperation (fooParsed 1 2 3 4 5)"
       and imp = plainImports and kind = "''query''" and nm = None
       and snapshot = "rootSnapshotAt (JRef 0)" and ?a0.0 = 0 and ?a1.0 = 1
       and h = fooBarHeap and rootProps = "[(''foo'', JRef 1)]"
       and fooProps = "[(''bar'', JRef 2)]" and barValue = "JRef 2"
       and inc = False]
    by (simp add: plainContext_def staticOperation_def plainImports_def queryOf_def
          rootSnapshotAt_def getNodeData_def getNodeSnapshot_def fooBarHeap_def cell_def
          present_with_def holds_field_def array_elems_def)
  have b: "\<exists>qr snapshot' vs.
       read plainImports (plainContext (staticOperation (fooParsed 1 2 3 4 5)))
         (queryOf [fooField 1 2 3 4 5]) (rootSnapshotAt (JRef 0)) False fooBarListHeap =
         Some (fooBarListHeap, snapshot', Inr (qr, False)) \<and>
       complete qr = Some False \<and>
       partitionedQuery qr =
         Some \<lparr>definitions =
                 [OperationDefinition ''query'' None [objectField 1 ''foo'' [bazField 3 5]]]\<rparr> \<and>
       visitSelection (plainContext (staticOperation (fooParsed 1 2 3 4 5))) fooBarListHeap
         (staticOperation (fooParsed 1 2 3 4 5)) (result qr) None = Some vs \<and>
       set (v_missingFields vs) = {bazField 3 5}"
    using partial_read_scenario
    [where ?r1.0 = 1 and ?r2.0 = 2 and ?r3.0 = 3 and ?r4.0 = 4 and ?r5.0 = 5
       and ctx = "plainContext (staticOperation (fooParsed 1 2 3 4 5))"
       and raw = "queryOf [fooField 1 2 3 4 5]"
       and operation = "staticOperation (fooParsed 1 2 3 4 5)"
       and imp = plainImports and kind = "''query''" and nm = None
       and snapshot = "rootSnapshotAt (JRef 0)" and ?a0.0 = 0 and ?a1.0 = 1
       and h = fooBarListHeap and rootProps = "[(''foo'', JRef 1)]"
       and fooProps = "[(''bar'', JRef 2)]" and barValue = "JRef 2"
       and inc = False]
    by (simp add: plainContext_def staticOperation_def plainImports_def queryOf_def
          rootSnapshotAt_def getNodeData_def getNodeSnapshot_def fooBarListHeap_def cell_def
          present_with_def holds_field_def array_elems_def)
  show ?thesis using a b by (rule conjI)
qed

definition fooAnswer :: QueryResult where
  "fooAnswer =
     \<lparr>result = JRef 0, complete = Some False, entityIds = None, dynamicNodeIds = None,
      partitionedQuery = Some (document (queryOf [objectField 1 ''foo'' [bazField 3 5]]))\<rparr>"

text \<open>The claim as stated fails in two ways.  A second read of the same query on
  the snapshot the first read leaves is served from the memoization table; it starts
  from an empty list of missing selections and reports the whole document
  \<open>{ foo { bar { fizz } baz { buzz } } }\<close> as the partitioned query.  And where
  \<open>foo.bar\<close> is present as the empty object, its \<open>fizz\<close> is missing as well, so the
  partitioned query keeps \<open>bar { fizz }\<close> beside \<open>baz { buzz }\<close>.\<close>

theorem partial_read_scenario_counterexample:
  "read plainImports (plainContext (staticOperation (fooParsed 1 2 3 4 5)))
     (queryOf [fooField 1 2 3 4 5]) (rootSnapshotAt (JRef 0)) False fooBarHeap =
     Some (fooBarHeap,
           cache_set (rootSnapshotAt (JRef 0)) (staticOperation (fooParsed 1 2 3 4 5)) fooAnswer,
           Inr (fooAnswer, False)) \<and>
   map_option (\<lambda>(h, snapshot, r). r)
     (read plainImports (plainContext (staticOperation (fooParsed 1 2 3 4 5)))
        (queryOf [fooField 1 2 3 4 5])
        (cache_set (rootSnapshotAt (JRef 0)) (staticOperation (fooParsed 1 2 3 4 5)) fooAnswer)
        False fooBarHeap) =
     Some (Inr (fooAnswer\<lparr>partitionedQuery := Some (document (queryOf [fooField 1 2 3 4 5]))\<rparr>,
                True)) \<and>
   map_option (\<lambda>(h, snapshot, r). r)
     (read plainImports (plainContext (staticOperation (fooParsed 1 2 3 4 5)))
        (queryOf [fooField 1 2 3 4 5]) (rootSnapshotAt (JRef 0)) False
        [JObject [(''foo'', JRef 1)], JObject [(''bar'', JRef 2)], JObject []]) =
     Some (Inr (fooAnswer\<lparr>partitionedQuery := Some (document (queryOf [fooField 1 2 3 4 5]))\<rparr>,
                False))"
  by (simp add: read_def read_compute_def empty_result_def partitionQuery_def Let_def
        plainContext_def staticOperation_def plainImports_def queryOf_def fooParsed_def
        fooAnswer_def fooBarHeap_def
        rootSnapshotAt_def getNodeData_def getNodeSnapshot_def cell_def cache_set_def
        visitSelection_def walkOperation_def walk_loop_Cons walk_loop_Nil walk_step_def
        array_elems_def visitor_def parsedLeaf_def parsedObject_def leafField_def objectField_def
        fooField_def barField_def bazField_def fizzField_def buzzField_def
        has_prop_def get_def listed_def)

section \<open>Two missing siblings\<close>

text \<open>The query \<open>{ a b }\<close>.\<close>

definition abParsed :: ParsedQuery where
  "abParsed = [(''a'', parsedLeaf (leafField 1 ''a'')), (''b'', parsedLeaf (leafField 2 ''b''))]"

definition abQuery :: RawOperation where
  "abQuery = queryOf [leafField 1 ''a'', leafField 2 ''b'']"

text \<open>
  \<^bold>\<open>C2 (where the code departs from it).\<close>  Read \<open>{ a b }\<close> against a root object that
  has neither field: the visitor leaves its field loop at \<open>a\<close>, so only \<open>a\<close> is
  collected and the partitioned document is \<open>{ a }\<close>.  Read the same query against
  the root object extended by exactly what \<open>{ a }\<close> asks for: the result is still
  incomplete, since \<open>b\<close> was never asked for.
\<close>

theorem partition_misses_later_sibling:
  "map_option (\<lambda>(h, snapshot, r). r)
     (read plainImports (plainContext (staticOperation abParsed)) abQuery
        (rootSnapshotAt (JRef 0)) False [JObject []]) =
     Some (Inr (\<lparr>result = JRef 0, complete = Some False, entityIds = None,
                  dynamicNodeIds = None,
                  partitionedQuery = Some (document (queryOf [leafField 1 ''a'']))\<rparr>, False)) \<and>
   map_option (\<lambda>(h, snapshot, r). r)
     (read plainImports (plainContext (staticOperation abParsed)) abQuery
        (rootSnapshotAt (JRef 0)) False [JObject [(''a'', JNum 1)]]) =
     Some (Inr (\<lparr>result = JRef 0, complete = Some False, entityIds = None,
                  dynamicNodeIds = None,
                  partitionedQuery = Some (document (queryOf [leafField 2 ''b'']))\<rparr>, False))"
  by (simp add: read_def read_compute_def empty_result_def partitionQuery_def Let_def
        plainContext_def staticOperation_def plainImports_def queryOf_def abQuery_def abParsed_def
        rootSnapshotAt_def getNodeData_def getNodeSnapshot_def cell_def
        visitSelection_def walkOperation_def walk_loop_Cons walk_loop_Nil walk_step_def
        array_elems_def visitor_def parsedLeaf_def leafField_def has_prop_def listed_def cache_set_def)


theorem partition_misses_later_sibling_witness:
  "map_option (\<lambda>(h, snapshot, r). r)
     (read plainImports (plainContext (staticOperation abParsed)) abQuery
        (rootSnapshotAt (JRef 0)) False [JObject [(''a'', JNum 1)]]) =
     Some (Inr (\<lparr>result = JRef 0, complete = Some False, entityIds = None,
                  dynamicNodeIds = None,
                  partitionedQuery = Some (document (queryOf [leafField 2 ''b'']))\<rparr>, False))"
  using partition_misses_later_sibling by (rule conjunct2)

section \<open>Reading twice\<close>

lemma getNodeSnapshot_cache_set [simp]:
  "getNodeSnapshot (cache_set snapshot op q) = getNodeSnapshot snapshot"
  by (rule ext) (simp add: getNodeSnapshot_def cache_set_def)

lemma getNodeData_cache_set [simp]:
  "getNodeData (cache_set snapshot op q) = getNodeData snapshot"
  by (rule ext) (simp add: getNodeData_def)

lemma resolve_parameterized_cache_set [simp]:
  "resolve_parameterized imp ctx (cache_set snapshot op q) =
   resolve_parameterized imp ctx snapshot"
  unfolding resolve_parameterized_def getNodeSnapshot_cache_set by (rule refl)

lemma overlay_field_cache_set [simp]:
  "overlay_field imp ctx (cache_set snapshot op q) = overlay_field imp ctx snapshot"
  unfolding overlay_field_def resolve_parameterized_cache_set by (rule refl)

lemma overlay_fields_cache_set [simp]:
  "overlay_fields imp ctx (cache_set snapshot op q) v cid pth pq st =
   overlay_fields imp ctx snapshot v cid pth pq st"
  by (induction pq arbitrary: st) (simp_all add: Let_def cong: if_cong)

lemma overlay_node_cache_set [simp]:
  "overlay_node imp ctx (cache_set snapshot op q) = overlay_node imp ctx snapshot"
  unfolding overlay_node_def overlay_fields_cache_set by (rule refl)

lemma overlay_loop_cache_set [simp]:
  "overlay_loop imp ctx (cache_set snapshot op q) st = overlay_loop imp ctx snapshot st"
proof (induction imp ctx snapshot st rule: overlay_loop.induct)
  case (1 imp ctx snapshot st)
  show ?case
  proof (cases "ov_queue st")
    case Nil
    then show ?thesis
      by (subst overlay_loop.simps, subst (2) overlay_loop.simps) simp
  next
    case (Cons wn rest)
    then show ?thesis
      using 1[OF Cons refl]
      by (subst overlay_loop.simps, subst (2) overlay_loop.simps) (simp add: Let_def)
  qed
qed

lemma walkAndOverlay_cache_set [simp]:
  "walkAndOverlayDynamicValues imp ctx query (cache_set snapshot op q) =
   walkAndOverlayDynamicValues imp ctx query snapshot"
  unfolding walkAndOverlayDynamicValues_def getNodeSnapshot_cache_set overlay_loop_cache_set
  by (rule refl)

lemma overlay_child_not_object:
  "\<not> isObject v \<Longrightarrow> ov_thrown (overlay_child ctx v key node ncid np child st) \<noteq> None"
  by (cases v) (auto simp: overlay_child_def write_prop_def split: prod.splits)

lemma overlay_field_not_object:
  assumes "\<not> isObject v"
  shows "ov_thrown (overlay_field imp ctx snapshot v cid pth kn st) \<noteq> None \<or>
         overlay_field imp ctx snapshot v cid pth kn st = st"
  using overlay_child_not_object[OF assms]
  by (auto simp: overlay_field_def Let_def split: prod.splits option.splits sum.splits)

lemma overlay_fields_not_object:
  assumes "\<not> isObject v"
  shows "ov_thrown (overlay_fields imp ctx snapshot v cid pth pq st) \<noteq> None \<or>
         overlay_fields imp ctx snapshot v cid pth pq st = st"
proof (induction pq)
  case Nil
  then show ?case by simp
next
  case (Cons kn rest)
  then show ?case
    using overlay_field_not_object[OF assms, of imp ctx snapshot cid pth kn st]
    by (auto simp: Let_def)
qed

lemma overlay_node_not_object:
  assumes "\<not> isObject (walkValue wn)"
  shows "ov_thrown (overlay_node imp ctx snapshot wn st) \<noteq> None \<or>
         overlay_node imp ctx snapshot wn st = st"
  using overlay_fields_not_object[OF assms] by (simp add: overlay_node_def Let_def)

lemma wrapValue_not_object:
  "wrapValue ctx h v = (h1, w) \<Longrightarrow> \<not> isObject w \<Longrightarrow> h1 = h \<and> w = v"
  by (cases v) (auto simp: wrapValue_def alloc_def split: jsobject.splits option.splits if_splits)

lemma truthy_object: "isObject v \<Longrightarrow> truthy v"
  by (cases v) simp_all

lemma overlay_falsy_result:
  assumes run: "walkAndOverlayDynamicValues imp ctx query snapshot h res dyn = (st, r)"
    and ok: "ov_thrown st = None" and falsy: "\<not> truthy r"
  shows "ov_heap st = h"
proof (cases "getNodeSnapshot snapshot (rootId query)")
  case None
  with run show ?thesis by (auto simp: walkAndOverlayDynamicValues_def)
next
  case (Some rs)
  obtain h1 w where w: "wrapValue ctx h res = (h1, w)" by force
  let ?wn = "OverlayWalkNode w (rootId query) (parsedQuery query) []"
  let ?st0 = "\<lparr>ov_heap = h1, ov_queue = [?wn], ov_dynamicNodeIds = dyn, ov_thrown = None\<rparr>"
  from run Some w have r: "r = w" and st: "st = overlay_loop imp ctx snapshot ?st0"
    by (auto simp: walkAndOverlayDynamicValues_def)
  from falsy r have no: "\<not> isObject w" using truthy_object by blast
  with w have h1: "h1 = h" using wrapValue_not_object by blast
  let ?st1 = "overlay_node imp ctx snapshot ?wn (?st0\<lparr>ov_queue := []\<rparr>)"
  have step: "st = (if ov_thrown ?st1 \<noteq> None then ?st1 else overlay_loop imp ctx snapshot ?st1)"
    unfolding st by (subst overlay_loop.simps) (simp add: Let_def)
  show ?thesis
  proof (cases "ov_thrown ?st1 \<noteq> None")
    case True
    with step ok show ?thesis by simp
  next
    case False
    with overlay_node_not_object[of ?wn imp ctx snapshot "?st0\<lparr>ov_queue := []\<rparr>"] no
    have "?st1 = ?st0\<lparr>ov_queue := []\<rparr>" by simp
    with step False have "st = overlay_loop imp ctx snapshot (?st0\<lparr>ov_queue := []\<rparr>)" by simp
    then show ?thesis using h1 by (subst (asm) overlay_loop.simps) simp
  qed
qed


lemma read_compute_Inr:
  assumes "read_compute imp ctx operation snapshot inc h q = Some (h1, qc, Inr out)"
  shows "\<exists>vs. visitSelection ctx h1 operation (result qc) (if inc then Some {} else None) = Some vs
           \<and> complete qc = Some (v_complete vs) \<and> entityIds qc = v_nodeIds vs
           \<and> out = (v_missingFields vs, False)"
  using assms
  by (auto simp: read_compute_def Let_def split: if_splits prod.splits option.splits)

lemma read_compute_entityIds:
  assumes "read_compute imp ctx operation snapshot inc h q = Some (h1, qc, Inr out)"
  shows "inc \<longrightarrow> entityIds qc \<noteq> None"
proof -
  from read_compute_Inr[OF assms] obtain vs where
    "visitSelection ctx h1 operation (result qc) (if inc then Some {} else None) = Some vs"
    "entityIds qc = v_nodeIds vs" by blast
  then show ?thesis using visitSelection_nodeIds by fastforce
qed

lemma read_compute_again:
  assumes run: "read_compute imp ctx operation snapshot inc h q = Some (h1, qc, Inr out)"
    and falsy: "\<not> truthy (result qc)"
  shows "\<exists>qc'. read_compute imp ctx operation (cache_set snapshot op' q'') inc h1 q' =
                  Some (h1, qc', Inr out) \<and>
               complete qc' = complete qc \<and> entityIds qc' = entityIds qc \<and>
               result qc' = result qc"
proof (cases "isStatic operation")
  case True
  with run show ?thesis
    by (auto simp: read_compute_def Let_def split: if_splits prod.splits option.splits)
next
  case False
  obtain st r where ov: "walkAndOverlayDynamicValues imp ctx operation snapshot h
      (getNodeData snapshot (rootId operation)) {} = (st, r)" by force
  from run False ov have ok: "ov_thrown st = None" and h1: "h1 = ov_heap st" and r: "result qc = r"
    by (auto simp: read_compute_def Let_def split: if_splits prod.splits option.splits)
  from overlay_falsy_result[OF ov ok] falsy r have hh: "ov_heap st = h" by simp
  with run False ov ok h1 show ?thesis
    by (auto simp: read_compute_def Let_def split: if_splits prod.splits option.splits)
qed

lemma read_entity_ids_Some:
  assumes "read_entity_ids ctx operation h q = Some (q', missing, hit)"
  shows "entityIds q' \<noteq> None \<and> result q' = result q"
proof -
  from assms obtain vs where vs: "visitSelection ctx h operation (result q) (Some {}) = Some vs"
    and q': "q' = q\<lparr>complete := Some (v_complete vs), entityIds := v_nodeIds vs\<rparr>"
    by (auto simp: read_entity_ids_def split: option.splits)
  from visitSelection_nodeIds[OF vs] q' show ?thesis by simp
qed


lemma read_first_facts:
  assumes first: "read imp ctx raw snapshot inc h = Some (h1, snapshot1, Inr (qr1, hit1))"
  shows "\<exists>operation. parseOperation ctx raw = Inr operation \<and>
           snapshot1 = cache_set snapshot operation qr1 \<and>
           (inc \<longrightarrow> entityIds qr1 \<noteq> None) \<and>
           (\<not> truthy (result qr1) \<longrightarrow>
              (\<exists>q qc out. read_compute imp ctx operation snapshot inc h q = Some (h1, qc, Inr out) \<and>
                  result qc = result qr1 \<and> complete qc = complete qr1 \<and>
                  entityIds qc = entityIds qr1))"
proof -
  from first obtain operation where op: "parseOperation ctx raw = Inr operation"
    by (auto simp: read_def split: sum.splits)
  define e where "e = (case readCache snapshot operation of Some q \<Rightarrow> q | None \<Rightarrow> empty_result)"
  define stage1 where "stage1 = (if \<not> truthy (result e)
       then read_compute imp ctx operation snapshot inc h e
       else Some (h, e, Inr ([], True)))"
  from first op obtain hs q1 missing1 hitA where s1: "stage1 = Some (hs, q1, Inr (missing1, hitA))"
    unfolding read_def stage1_def e_def
    by (auto simp: Let_def split: option.splits sum.splits prod.splits if_splits)
  define stage2 where "stage2 = (if inc \<and> entityIds q1 = None
       then read_entity_ids ctx operation hs q1 else Some (q1, missing1, hitA))"
  from first op s1 obtain q2 missing2 hitB where s2: "stage2 = Some (q2, missing2, hitB)"
    unfolding read_def stage2_def stage1_def e_def
    by (auto simp: Let_def split: option.splits sum.splits prod.splits if_splits)
  from first op s1 s2 have fin: "h1 = hs" "snapshot1 = cache_set snapshot operation qr1"
      "\<exists>d. qr1 = q2\<lparr>partitionedQuery := d\<rparr>"
    unfolding read_def stage2_def stage1_def e_def
    by (auto simp: Let_def split: option.splits sum.splits prod.splits if_splits)
  have r12: "result q2 = result q1" "inc \<longrightarrow> entityIds q2 \<noteq> None"
       "\<not> (inc \<and> entityIds q1 = None) \<longrightarrow> q2 = q1"
    using s2 read_entity_ids_Some[of ctx operation hs q1 q2 missing2 hitB]
    unfolding stage2_def by (auto split: if_splits)
  have comp: "\<not> truthy (result q1) \<longrightarrow>
      read_compute imp ctx operation snapshot inc h e = Some (hs, q1, Inr (missing1, hitA))"
    using s1 unfolding stage1_def by (auto split: if_splits)
  have q21: "\<not> truthy (result q1) \<longrightarrow> q2 = q1"
    using comp read_compute_entityIds r12(3) by blast
  from fin(3) obtain d where d: "qr1 = q2\<lparr>partitionedQuery := d\<rparr>" by blast
  have P1: "inc \<longrightarrow> entityIds qr1 \<noteq> None" using r12 d by simp
  have P2: "\<not> truthy (result qr1) \<longrightarrow>
              (\<exists>q qc out. read_compute imp ctx operation snapshot inc h q = Some (h1, qc, Inr out) \<and>
                  result qc = result qr1 \<and> complete qc = complete qr1 \<and>
                  entityIds qc = entityIds qr1)"
  proof
    assume "\<not> truthy (result qr1)"
    with d r12(1) have f1: "\<not> truthy (result q1)" by simp
    with q21 have "q2 = q1" by simp
    with d have "result q1 = result qr1" "complete q1 = complete qr1"
      "entityIds q1 = entityIds qr1" by simp_all
    with comp f1 fin(1) show "\<exists>q qc out.
        read_compute imp ctx operation snapshot inc h q = Some (h1, qc, Inr out) \<and>
        result qc = result qr1 \<and> complete qc = complete qr1 \<and> entityIds qc = entityIds qr1"
      by (intro exI[of _ e] exI[of _ q1] exI[of _ "(missing1, hitA)"]) simp
  qed
  show ?thesis
    using op fin(2) P1 P2 by (intro exI[of _ operation]) simp
qed

text \<open>
  \<^bold>\<open>C8 (as the code has it).\<close>  When \<open>read\<close> returns a result, a second call with the
  same arguments on the snapshot as the first call left it (only its memoization
  table has changed) returns too, leaves the store as it is, and gives a result with
  the same \<open>complete\<close>, the same \<open>entityIds\<close> and the same result value.  The second
  call is a cache hit, served from the table without recomputation, exactly when the
  memoized result value is truthy; when the root node has no data the second call
  computes again, and reaches the same verdict.
\<close>

theorem read_twice:
  assumes first: "read imp ctx raw snapshot inc h = Some (h1, snapshot1, Inr (qr1, hit1))"
  shows "\<exists>snapshot2 qr2 hit2.
           read imp ctx raw snapshot1 inc h1 = Some (h1, snapshot2, Inr (qr2, hit2)) \<and>
           complete qr2 = complete qr1 \<and> entityIds qr2 = entityIds qr1 \<and>
           result qr2 = result qr1 \<and> hit2 = truthy (result qr1)"
proof -
  from read_first_facts[OF first] obtain operation where
    op: "parseOperation ctx raw = Inr operation"
    and s1: "snapshot1 = cache_set snapshot operation qr1"
    and ids: "inc \<longrightarrow> entityIds qr1 \<noteq> None"
    and comp: "\<not> truthy (result qr1) \<longrightarrow>
              (\<exists>q qc out. read_compute imp ctx operation snapshot inc h q = Some (h1, qc, Inr out) \<and>
                  result qc = result qr1 \<and> complete qc = complete qr1 \<and>
                  entityIds qc = entityIds qr1)"
    by blast
  have entry: "readCache snapshot1 operation = Some qr1"
    by (simp add: s1 cache_set_def)
  show ?thesis
  proof (cases "truthy (result qr1)")
    case True
    with op entry ids show ?thesis
      by (auto simp: read_def Let_def)
  next
    case False
    with comp obtain q qc out where
      rc: "read_compute imp ctx operation snapshot inc h q = Some (h1, qc, Inr out)"
      and eq: "result qc = result qr1" "complete qc = complete qr1" "entityIds qc = entityIds qr1"
      by blast
    from False eq have fq: "\<not> truthy (result qc)" by simp
    from read_compute_again[OF rc fq, of operation qr1 qr1] obtain qc' where
      again: "read_compute imp ctx operation snapshot1 inc h1 qr1 = Some (h1, qc', Inr out)"
      and eq': "complete qc' = complete qc" "entityIds qc' = entityIds qc" "result qc' = result qc"
      unfolding s1 by blast
    obtain missing hitc where out: "out = (missing, hitc)" by (cases out)
    from read_compute_Inr[OF again] out have hitc: "hitc = False" by auto
    from op entry ids False again eq eq' out hitc show ?thesis
      by (auto simp: read_def Let_def)
  qed
qed


definition abAnswer :: QueryResult where
  "abAnswer =
     \<lparr>result = JRef 0, complete = Some False, entityIds = None, dynamicNodeIds = None,
      partitionedQuery = Some (document (queryOf [leafField 2 ''b'']))\<rparr>"

lemma ab_first_read:
  "read plainImports (plainContext (staticOperation abParsed)) abQuery
     (rootSnapshotAt (JRef 0)) False [JObject [(''a'', JNum 1)]] =
   Some ([JObject [(''a'', JNum 1)]],
         cache_set (rootSnapshotAt (JRef 0)) (staticOperation abParsed) abAnswer,
         Inr (abAnswer, False))"
  by (simp add: read_def read_compute_def empty_result_def partitionQuery_def Let_def
        plainContext_def staticOperation_def plainImports_def queryOf_def abQuery_def
        abParsed_def abAnswer_def rootSnapshotAt_def getNodeData_def getNodeSnapshot_def cell_def
        visitSelection_def walkOperation_def walk_loop_Cons walk_loop_Nil walk_step_def
        array_elems_def visitor_def parsedLeaf_def leafField_def has_prop_def listed_def)

theorem read_twice_witness:
  "\<exists>snapshot2 qr2 hit2.
     read plainImports (plainContext (staticOperation abParsed)) abQuery
       (cache_set (rootSnapshotAt (JRef 0)) (staticOperation abParsed) abAnswer) False
       [JObject [(''a'', JNum 1)]] =
       Some ([JObject [(''a'', JNum 1)]], snapshot2, Inr (qr2, hit2)) \<and>
     complete qr2 = Some False \<and> entityIds qr2 = None \<and> result qr2 = JRef 0 \<and> hit2"
  using read_twice[OF ab_first_read] by (simp add: abAnswer_def)

text \<open>A snapshot without any node.\<close>

definition emptySnapshot :: GraphSnapshot where
  "emptySnapshot = \<lparr>nodes = (\<lambda>nid. None), readCache = (\<lambda>operation. None)\<rparr>"

definition noAnswer :: QueryResult where
  "noAnswer =
     \<lparr>result = JUndefined, complete = Some False, entityIds = None, dynamicNodeIds = None,
      partitionedQuery = Some (document abQuery)\<rparr>"

text \<open>The claim as stated fails where the root node is not in the snapshot: the first
  read memoizes a result without a value, and the second read, finding no value,
  computes again and reports \<open>cacheHit = false\<close>.\<close>

theorem read_twice_counterexample:
  "read plainImports (plainContext (staticOperation abParsed)) abQuery emptySnapshot False [] =
     Some ([], cache_set emptySnapshot (staticOperation abParsed) noAnswer,
           Inr (noAnswer, False)) \<and>
   map_option (\<lambda>(h, snapshot, r). r)
     (read plainImports (plainContext (staticOperation abParsed)) abQuery
        (cache_set emptySnapshot (staticOperation abParsed) noAnswer) False []) =
     Some (Inr (noAnswer, False))"
  by (simp add: read_def read_compute_def empty_result_def Let_def
        plainContext_def staticOperation_def abParsed_def noAnswer_def emptySnapshot_def
        getNodeData_def getNodeSnapshot_def cache_set_def
        visitSelection_def walkOperation_def walk_loop_Cons walk_loop_Nil walk_step_def
        array_elems_def visitor_def parsedLeaf_def)

text \<open>A read served from the memoization table starts from an empty list of missing
  selections, so it reports the original document as the partitioned query, whatever
  the first read had found missing.\<close>

lemma memoized_read_reports_original_document:
  assumes "parseOperation ctx raw = Inr operation"
    and "readCache snapshot operation = Some q" and "truthy (result q)"
    and "inc \<longrightarrow> entityIds q \<noteq> None"
  shows "read imp ctx raw snapshot inc h =
     Some (h, cache_set snapshot operation (q\<lparr>partitionedQuery := Some (document raw)\<rparr>),
           Inr (q\<lparr>partitionedQuery := Some (document raw)\<rparr>, True))"
  using assms by (auto simp: read_def Let_def)

section \<open>The overlay engine writes into its own copies only\<close>

text \<open>A value is fresh from \<open>n\<close> when it is no reference to a cell below \<open>n\<close>;
  a step writes only \<open>v\<close> when it leaves every other cell in place.\<close>

definition fresh_from :: "nat \<Rightarrow> jsvalue \<Rightarrow> bool" where
  "fresh_from n v = (case v of JRef a \<Rightarrow> n \<le> a | _ \<Rightarrow> True)"

definition writes_only :: "jsvalue \<Rightarrow> heap \<Rightarrow> heap \<Rightarrow> bool" where
  "writes_only v h h' =
     (length h \<le> length h' \<and> (\<forall>a < length h. JRef a \<noteq> v \<longrightarrow> h' ! a = h ! a))"

lemma writes_only_refl: "writes_only v h h"
  by (simp add: writes_only_def)

lemma writes_only_trans:
  "writes_only v h h1 \<Longrightarrow> writes_only v h1 h2 \<Longrightarrow> writes_only v h h2"
  by (auto simp: writes_only_def)

lemma fresh_from_mono: "fresh_from n v \<Longrightarrow> m \<le> n \<Longrightarrow> fresh_from m v"
  by (cases v) (auto simp: fresh_from_def)

lemma wrapValue_frame:
  assumes "wrapValue ctx h x = (h1, w)"
  shows "length h \<le> length h1" and "\<forall>a < length h. h1 ! a = h ! a"
    and "fresh_from (length h) w" and "w = x \<or> w = JRef (length h)"
  using assms
  by (cases x; auto simp: wrapValue_def alloc_def fresh_from_def nth_append
        split: jsobject.splits option.splits if_splits)+

lemma write_prop_frame:
  "write_prop h v k x = Inr h' \<Longrightarrow> writes_only v h h'"
  by (cases v) (auto simp: write_prop_def writes_only_def)

lemma write_elem_frame:
  "length (write_elem h ac i x) = length h \<and>
   (\<forall>a. a \<noteq> ac \<longrightarrow> write_elem h ac i x ! a = h ! a)"
  by (auto simp: write_elem_def split: jsobject.splits)

lemma overlay_elements_frame:
  "\<exists>h' new. overlay_elements ctx ac cid ch np i (h, queue) = (h', new @ queue) \<and>
      length h \<le> length h' \<and> (\<forall>a < length h. a \<noteq> ac \<longrightarrow> h' ! a = h ! a) \<and>
      (\<forall>x \<in> set new. fresh_from (length h) (walkValue x))"
proof (induction i arbitrary: h queue)
  case 0
  then show ?case by simp
next
  case (Suc i)
  show ?case
  proof (cases "elem_at h ac i = JNull")
    case True
    then show ?thesis using Suc.IH[of h queue] by simp
  next
    case False
    obtain h1 w where w: "wrapValue ctx h (elem_at h ac i) = (h1, w)" by force
    let ?h2 = "write_elem h1 ac i w"
    let ?n = "OverlayWalkNode w cid ch (np @ [PathIndex i])"
    from Suc.IH[of ?h2 "?n # queue"] obtain h' new where
      r: "overlay_elements ctx ac cid ch np i (?h2, ?n # queue) = (h', new @ ?n # queue)"
      and len: "length ?h2 \<le> length h'"
      and same: "\<forall>a < length ?h2. a \<noteq> ac \<longrightarrow> h' ! a = ?h2 ! a"
      and fr: "\<forall>x \<in> set new. fresh_from (length ?h2) (walkValue x)" by blast
    note wf = wrapValue_frame[OF w]
    have l2: "length ?h2 = length h1" using write_elem_frame by simp
    have "overlay_elements ctx ac cid ch np (Suc i) (h, queue) = (h', (new @ [?n]) @ queue)"
      using False w r by simp
    moreover have "length h \<le> length h'" using wf(1) l2 len by simp
    moreover have "\<forall>a < length h. a \<noteq> ac \<longrightarrow> h' ! a = h ! a"
      using same wf(1,2) l2 write_elem_frame[of h1 ac i w] by auto
    moreover have "\<forall>x \<in> set (new @ [?n]). fresh_from (length h) (walkValue x)"
      using fr wf(1,3) l2 by (auto intro: fresh_from_mono)
    ultimately show ?thesis by blast
  qed
qed

definition step_ok :: "jsvalue \<Rightarrow> OverlayState \<Rightarrow> OverlayState \<Rightarrow> bool" where
  "step_ok v st st' =
     (writes_only v (ov_heap st) (ov_heap st') \<and>
      ov_dynamicNodeIds st \<subseteq> ov_dynamicNodeIds st' \<and>
      (\<exists>new. ov_queue st' = new @ ov_queue st \<and>
             (\<forall>x \<in> set new. fresh_from (length (ov_heap st)) (walkValue x))))"

lemma step_ok_refl: "step_ok v st st"
  by (simp add: step_ok_def writes_only_refl)

lemma step_ok_trans:
  assumes "step_ok v st st1" and "step_ok v st1 st2"
  shows "step_ok v st st2"
proof -
  from assms obtain new1 new2 where
    q: "ov_queue st1 = new1 @ ov_queue st" "ov_queue st2 = new2 @ ov_queue st1"
    and f: "\<forall>x \<in> set new1. fresh_from (length (ov_heap st)) (walkValue x)"
           "\<forall>x \<in> set new2. fresh_from (length (ov_heap st1)) (walkValue x)"
    unfolding step_ok_def by blast
  have len: "length (ov_heap st) \<le> length (ov_heap st1)"
    using assms(1) by (simp add: step_ok_def writes_only_def)
  have "ov_queue st2 = (new2 @ new1) @ ov_queue st" using q by simp
  moreover have "\<forall>x \<in> set (new2 @ new1). fresh_from (length (ov_heap st)) (walkValue x)"
    using f len by (auto intro: fresh_from_mono)
  ultimately show ?thesis
    using assms unfolding step_ok_def
    by (blast intro: writes_only_trans)
qed

lemma step_ok_thrown: "step_ok v st st' \<Longrightarrow> step_ok v st (st'\<lparr>ov_thrown := e\<rparr>)"
  by (simp add: step_ok_def)

lemma step_ok_dyn:
  "step_ok v (st\<lparr>ov_dynamicNodeIds := insert i (ov_dynamicNodeIds st)\<rparr>) st' \<Longrightarrow> step_ok v st st'"
  by (auto simp: step_ok_def)

lemma overlay_descend_frame:
  "\<exists>st1 child1. overlay_descend ctx node ncid np child st = (st1, child1) \<and>
      step_ok v st st1 \<and> ov_thrown st1 = ov_thrown st \<and>
      ov_dynamicNodeIds st1 = ov_dynamicNodeIds st \<and>
      (\<forall>a < length (ov_heap st). ov_heap st1 ! a = ov_heap st ! a) \<and>
      (child1 = child \<or>
       (hasParameterizedChildren node \<and> children node \<noteq> None \<and>
        (\<exists>aw. child1 = JRef aw \<and> length (ov_heap st) \<le> aw))) \<and>
      (\<not> (hasParameterizedChildren node \<and> children node \<noteq> None \<and> child \<noteq> JNull)
         \<longrightarrow> child1 = child \<and> st1 = st)"
proof (cases "hasParameterizedChildren node \<and> children node \<noteq> None \<and> child \<noteq> JNull")
  case False
  then show ?thesis by (auto simp: overlay_descend_def step_ok_refl)
next
  case True
  show ?thesis
  proof (cases "array_elems (ov_heap st) child")
    case None
    obtain h1 w where w: "wrapValue ctx (ov_heap st) child = (h1, w)" by force
    note wf = wrapValue_frame[OF w]
    have "step_ok v st (st\<lparr>ov_heap := h1,
        ov_queue := OverlayWalkNode w ncid (the (children node)) np # ov_queue st\<rparr>)"
      unfolding step_ok_def writes_only_def using wf
      by (auto intro: exI[of _ "[OverlayWalkNode w ncid (the (children node)) np]"])
    with True None w wf show ?thesis by (auto simp: overlay_descend_def)
  next
    case (Some es)
    let ?h1 = "ov_heap st @ [JArray es []]"
    from overlay_elements_frame[of ctx "length (ov_heap st)" ncid "the (children node)" np
          "length es" ?h1 "ov_queue st"]
    obtain h2 new where
      r: "overlay_elements ctx (length (ov_heap st)) ncid (the (children node)) np (length es)
            (?h1, ov_queue st) = (h2, new @ ov_queue st)"
      and len: "length ?h1 \<le> length h2"
      and same: "\<forall>a < length ?h1. a \<noteq> length (ov_heap st) \<longrightarrow> h2 ! a = ?h1 ! a"
      and fr: "\<forall>x \<in> set new. fresh_from (length ?h1) (walkValue x)" by blast
    have cells: "\<forall>a < length (ov_heap st). h2 ! a = ov_heap st ! a"
      using same by (auto simp: nth_append)
    have "step_ok v st (st\<lparr>ov_heap := h2, ov_queue := new @ ov_queue st\<rparr>)"
      unfolding step_ok_def writes_only_def using len cells fr
      by (auto intro: fresh_from_mono)
    with True Some r cells show ?thesis by (auto simp: overlay_descend_def alloc_def)
  qed
qed

lemma overlay_child_step:
  "step_ok v st (overlay_child ctx v key node ncid np child st)"
proof -
  from overlay_descend_frame[of ctx node ncid np child st v] obtain st1 child1 where
    d: "overlay_descend ctx node ncid np child st = (st1, child1)" and ok: "step_ok v st st1"
    by blast
  show ?thesis
  proof (cases "write_prop (ov_heap st1) v key child1")
    case (Inl e)
    with d ok show ?thesis by (simp add: overlay_child_def step_ok_thrown)
  next
    case (Inr h')
    from write_prop_frame[OF Inr] have "step_ok v st1 (st1\<lparr>ov_heap := h'\<rparr>)"
      by (auto simp: step_ok_def)
    with d ok Inr show ?thesis by (auto simp: overlay_child_def intro: step_ok_trans)
  qed
qed


lemma overlay_field_step:
  "step_ok v st (overlay_field imp ctx snapshot v cid pth kn st)"
proof -
  obtain key node where kn: "kn = (key, node)" by (cases kn)
  have ch: "step_ok v st (overlay_child ctx v key node ncid np child
              (st\<lparr>ov_dynamicNodeIds := insert i (ov_dynamicNodeIds st)\<rparr>))" for ncid np child i
    using overlay_child_step step_ok_dyn by blast
  show ?thesis
    unfolding kn overlay_field_def
    by (auto simp: Let_def step_ok_refl step_ok_thrown overlay_child_step ch
        split: option.splits sum.splits prod.splits)
qed

lemma overlay_fields_step:
  "step_ok v st (overlay_fields imp ctx snapshot v cid pth pq st)"
proof (induction pq arbitrary: st)
  case Nil
  then show ?case by (simp add: step_ok_refl)
next
  case (Cons kn rest)
  show ?case
    using overlay_field_step[of v st imp ctx snapshot cid pth kn]
      Cons.IH[of "overlay_field imp ctx snapshot v cid pth kn st"]
    by (auto simp: Let_def intro: step_ok_trans)
qed

lemma overlay_node_step:
  "step_ok (walkValue wn) st (overlay_node imp ctx snapshot wn st)"
  by (simp add: overlay_node_def Let_def overlay_fields_step)


lemma overlay_loop_unfold:
  "overlay_loop imp ctx snapshot st =
     (case ov_queue st of
        [] \<Rightarrow> st
      | walkNode # rest \<Rightarrow>
          (let st' = overlay_node imp ctx snapshot walkNode (st\<lparr>ov_queue := rest\<rparr>)
           in if ov_thrown st' \<noteq> None then st'
              else overlay_loop imp ctx snapshot st'))"
  by (rule overlay_loop.simps)

definition below_kept :: "nat \<Rightarrow> OverlayState \<Rightarrow> OverlayState \<Rightarrow> bool" where
  "below_kept n st st' =
     (length (ov_heap st) \<le> length (ov_heap st') \<and>
      (\<forall>a < n. ov_heap st' ! a = ov_heap st ! a) \<and>
      ov_dynamicNodeIds st \<subseteq> ov_dynamicNodeIds st')"

lemma overlay_node_below:
  assumes n: "n \<le> length (ov_heap st)"
    and fr: "fresh_from n (walkValue wn)" "\<forall>x \<in> set (ov_queue st). fresh_from n (walkValue x)"
  shows "below_kept n st (overlay_node imp ctx snapshot wn st)"
    and "\<forall>x \<in> set (ov_queue (overlay_node imp ctx snapshot wn st)). fresh_from n (walkValue x)"
proof -
  let ?st1 = "overlay_node imp ctx snapshot wn st"
  from overlay_node_step[of wn st imp ctx snapshot] obtain new where
    w: "writes_only (walkValue wn) (ov_heap st) (ov_heap ?st1)"
    and d: "ov_dynamicNodeIds st \<subseteq> ov_dynamicNodeIds ?st1"
    and q: "ov_queue ?st1 = new @ ov_queue st"
    and f: "\<forall>x \<in> set new. fresh_from (length (ov_heap st)) (walkValue x)"
    unfolding step_ok_def by blast
  have "\<forall>a < n. JRef a \<noteq> walkValue wn"
    using fr(1) by (cases "walkValue wn") (auto simp: fresh_from_def)
  with w n d show "below_kept n st ?st1"
    by (auto simp: below_kept_def writes_only_def)
  show "\<forall>x \<in> set (ov_queue ?st1). fresh_from n (walkValue x)"
    using q f fr(2) n by (auto intro: fresh_from_mono)
qed

lemma overlay_loop_below:
  assumes "n \<le> length (ov_heap st)"
    and "\<forall>x \<in> set (ov_queue st). fresh_from n (walkValue x)"
  shows "below_kept n st (overlay_loop imp ctx snapshot st)"
  using assms
proof (induction imp ctx snapshot st rule: overlay_loop.induct)
  case (1 imp ctx snapshot st)
  show ?case
  proof (cases "ov_queue st")
    case Nil
    then show ?thesis
      by (subst overlay_loop_unfold) (simp add: below_kept_def)
  next
    case (Cons wn rest)
    let ?st0 = "st\<lparr>ov_queue := rest\<rparr>"
    let ?st1 = "overlay_node imp ctx snapshot wn ?st0"
    have n0: "n \<le> length (ov_heap ?st0)" using "1.prems"(1) by simp
    have f0: "fresh_from n (walkValue wn)"
        "\<forall>x \<in> set (ov_queue ?st0). fresh_from n (walkValue x)"
      using "1.prems"(2) Cons by simp_all
    note nb = overlay_node_below[OF n0 f0, of imp ctx snapshot]
    have b1: "below_kept n st ?st1" using nb(1) by (simp add: below_kept_def)
    show ?thesis
    proof (cases "ov_thrown ?st1 \<noteq> None")
      case True
      with Cons b1 show ?thesis by (subst overlay_loop_unfold) (simp add: Let_def)
    next
      case False
      have n1: "n \<le> length (ov_heap ?st1)"
        using b1 "1.prems"(1) by (simp add: below_kept_def)
      from "1.IH"[OF Cons refl False n1 nb(2)]
      have "below_kept n ?st1 (overlay_loop imp ctx snapshot ?st1)" .
      with b1 have "below_kept n st (overlay_loop imp ctx snapshot ?st1)"
        by (auto simp: below_kept_def)
      with Cons False show ?thesis by (subst overlay_loop_unfold) (simp add: Let_def)
    qed
  qed
qed

lemma overlay_store_prefix:
  assumes "walkAndOverlayDynamicValues imp ctx query snapshot h res dyn = (st, r)"
  shows "take (length h) (ov_heap st) = h"
proof (cases "getNodeSnapshot snapshot (rootId query)")
  case None
  with assms show ?thesis by (auto simp: walkAndOverlayDynamicValues_def)
next
  case (Some rs)
  obtain h1 w where w: "wrapValue ctx h res = (h1, w)" by force
  note wf = wrapValue_frame[OF w]
  let ?st0 = "\<lparr>ov_heap = h1,
      ov_queue = [OverlayWalkNode w (rootId query) (parsedQuery query) []],
      ov_dynamicNodeIds = dyn, ov_thrown = None\<rparr>"
  have "below_kept (length h) ?st0 (overlay_loop imp ctx snapshot ?st0)"
    by (rule overlay_loop_below) (use wf in simp_all)
  then have len: "length h \<le> length (ov_heap (overlay_loop imp ctx snapshot ?st0))"
    and same: "\<forall>a < length h. ov_heap (overlay_loop imp ctx snapshot ?st0) ! a = h ! a"
    using wf by (auto simp: below_kept_def)
  have "take (length h) (ov_heap (overlay_loop imp ctx snapshot ?st0)) = h"
    using len same by (intro nth_equalityI) simp_all
  with assms Some w show ?thesis by (auto simp: walkAndOverlayDynamicValues_def)
qed

text \<open>
  \<^bold>\<open>C9.\<close>  The overlay engine never writes into a cell of the store that existed
  before the call: whatever the operation, the snapshot, the raw result and the
  context, and whether the walk ends normally or by an exception, the store after
  \<open>_walkAndOverlayDynamicValues\<close> begins with the store before it, cell by cell.
  Every object or array it writes into is one it allocated itself (the copies made
  by \<open>_wrapValue\<close> and the array copies), so every stored node's data is as it was.
\<close>

theorem overlay_preserves_store:
  "take (length h)
     (ov_heap (fst (walkAndOverlayDynamicValues imp ctx query snapshot h res dyn))) = h"
proof -
  obtain st r where
    run: "walkAndOverlayDynamicValues imp ctx query snapshot h res dyn = (st, r)" by force
  from overlay_store_prefix[OF run] run show ?thesis by simp
qed

text \<open>The same holds of a whole read: the store it returns begins with the store it
  was given, and the snapshot's nodes are as they were.\<close>

lemma read_compute_prefix:
  assumes "read_compute imp ctx operation snapshot inc h q = Some (h1, qc, out)"
  shows "take (length h) h1 = h"
proof (cases "isStatic operation")
  case True
  with assms show ?thesis
    by (auto simp: read_compute_def Let_def split: option.splits)
next
  case False
  obtain st r where ov: "walkAndOverlayDynamicValues imp ctx operation snapshot h
      (getNodeData snapshot (rootId operation)) {} = (st, r)" by force
  from assms False ov have "h1 = ov_heap st"
    by (auto simp: read_compute_def Let_def split: option.splits)
  with overlay_store_prefix[OF ov] show ?thesis by simp
qed

lemma read_preserves_stored_data:
  assumes "read imp ctx raw snapshot inc h = Some (h1, snapshot1, out)"
  shows "take (length h) h1 = h \<and> nodes snapshot1 = nodes snapshot"
proof -
  have n: "nodes (cache_set snapshot op q) = nodes snapshot" for op q
    by (simp add: cache_set_def)
  show ?thesis
  proof (cases "parseOperation ctx raw")
    case (Inl e)
    with assms show ?thesis by (simp add: read_def)
  next
    case (Inr operation)
    define e where "e = (case readCache snapshot operation of Some q \<Rightarrow> q | None \<Rightarrow> empty_result)"
    define stage1 where "stage1 = (if \<not> truthy (result e)
       then read_compute imp ctx operation snapshot inc h e
       else Some (h, e, Inr ([], True)))"
    from assms Inr obtain hs q1 o1 where s1: "stage1 = Some (hs, q1, o1)"
      unfolding read_def stage1_def e_def
      by (auto simp: Let_def split: option.splits sum.splits prod.splits if_splits)
    have hs: "take (length h) hs = h"
      using s1 read_compute_prefix unfolding stage1_def by (auto split: if_splits)
    from assms Inr s1 have "h1 = hs \<and> (\<exists>q. snapshot1 = cache_set snapshot operation q)"
      unfolding read_def stage1_def e_def
      by (auto simp: Let_def split: option.splits sum.splits prod.splits if_splits)
    with hs n show ?thesis by auto
  qed
qed

section \<open>Parameterized fields\<close>

























text \<open>The states of the engine.  Every value the engine queues is a scalar or a copy
  it has just allocated, so in every state of the loop the references in the queue
  are cells above the store the overlay started from (which had \<open>n\<close> cells), and no
  cell is queued twice.\<close>

fun ref_of :: "jsvalue \<Rightarrow> addr list" where
  "ref_of (JRef a) = [a]"
| "ref_of _ = []"

definition queue_refs :: "OverlayWalkNode list \<Rightarrow> addr list" where
  "queue_refs q = concat (map (\<lambda>x. ref_of (walkValue x)) q)"

definition engine_state :: "nat \<Rightarrow> OverlayState \<Rightarrow> bool" where
  "engine_state n st =
     (n \<le> length (ov_heap st) \<and>
      (\<forall>a \<in> set (queue_refs (ov_queue st)). n \<le> a \<and> a < length (ov_heap st)) \<and>
      distinct (queue_refs (ov_queue st)))"

lemma queue_refs_append [simp]: "queue_refs (xs @ ys) = queue_refs xs @ queue_refs ys"
  by (simp add: queue_refs_def)

lemma queue_refs_Cons [simp]: "queue_refs (x # xs) = ref_of (walkValue x) @ queue_refs xs"
  by (simp add: queue_refs_def)

lemma queue_refs_Nil [simp]: "queue_refs [] = []"
  by (simp add: queue_refs_def)


text \<open>The nodes a step pushes: each is a new cell of its own.\<close>

definition pushes :: "heap \<Rightarrow> heap \<Rightarrow> OverlayWalkNode list \<Rightarrow> bool" where
  "pushes h h' new =
     (length h \<le> length h' \<and> distinct (queue_refs new) \<and>
      (\<forall>a \<in> set (queue_refs new). length h \<le> a \<and> a < length h'))"

lemma pushes_refl: "pushes h h []"
  by (simp add: pushes_def)

lemma pushes_trans:
  assumes "pushes h h1 new1" and "pushes h1 h2 new2"
  shows "pushes h h2 (new2 @ new1)"
proof -
  have d: "set (queue_refs new2) \<inter> set (queue_refs new1) = {}"
  proof (rule ccontr)
    assume "set (queue_refs new2) \<inter> set (queue_refs new1) \<noteq> {}"
    then obtain a where "a \<in> set (queue_refs new2)" "a \<in> set (queue_refs new1)" by blast
    with assms have "length h1 \<le> a" "a < length h1" by (simp_all add: pushes_def)
    then show False by simp
  qed
  have r: "\<forall>a \<in> set (queue_refs new2) \<union> set (queue_refs new1). length h \<le> a \<and> a < length h2"
  proof
    fix a assume "a \<in> set (queue_refs new2) \<union> set (queue_refs new1)"
    then show "length h \<le> a \<and> a < length h2"
    proof
      assume "a \<in> set (queue_refs new2)"
      with assms have "length h1 \<le> a" "a < length h2" "length h \<le> length h1"
        by (simp_all add: pushes_def)
      then show ?thesis by simp
    next
      assume "a \<in> set (queue_refs new1)"
      with assms have "length h \<le> a" "a < length h1" "length h1 \<le> length h2"
        by (simp_all add: pushes_def)
      then show ?thesis by simp
    qed
  qed
  have l: "length h \<le> length h2" using assms by (simp add: pushes_def)
  have dd: "distinct (queue_refs new2)" "distinct (queue_refs new1)"
    using assms by (simp_all add: pushes_def)
  show ?thesis unfolding pushes_def using d r l dd by simp
qed

lemma pushes_same_length:
  "pushes h h1 new \<Longrightarrow> length h2 = length h1 \<Longrightarrow> pushes h h2 new"
  by (simp add: pushes_def)

lemma wrapValue_pushes:
  assumes "wrapValue ctx h x = (h1, w)"
  shows "pushes h h1 [OverlayWalkNode w cid ch np]"
  using assms
  by (cases x) (auto simp: wrapValue_def alloc_def pushes_def
        split: jsobject.splits option.splits if_splits)

lemma overlay_elements_pushes:
  "\<exists>h' new. overlay_elements ctx ac cid ch np i (h, queue) = (h', new @ queue) \<and> pushes h h' new"
proof (induction i arbitrary: h queue)
  case 0
  show ?case by (simp add: pushes_refl)
next
  case (Suc i)
  show ?case
  proof (cases "elem_at h ac i = JNull")
    case True
    then show ?thesis using Suc.IH[of h queue] by simp
  next
    case False
    obtain h1 w where w: "wrapValue ctx h (elem_at h ac i) = (h1, w)" by force
    let ?h2 = "write_elem h1 ac i w"
    let ?n = "OverlayWalkNode w cid ch (np @ [PathIndex i])"
    have l2: "length ?h2 = length h1" using write_elem_frame by simp
    have p1: "pushes h ?h2 [?n]"
      using wrapValue_pushes[OF w] l2 by (rule pushes_same_length)
    from Suc.IH[of ?h2 "?n # queue"] obtain h' new where
      r: "overlay_elements ctx ac cid ch np i (?h2, ?n # queue) = (h', new @ ?n # queue)"
      and p2: "pushes ?h2 h' new" by blast
    have "overlay_elements ctx ac cid ch np (Suc i) (h, queue) = (h', (new @ [?n]) @ queue)"
      using False w r by simp
    with pushes_trans[OF p1 p2] show ?thesis by blast
  qed
qed

definition step_pushes :: "OverlayState \<Rightarrow> OverlayState \<Rightarrow> bool" where
  "step_pushes st st' =
     (\<exists>new. ov_queue st' = new @ ov_queue st \<and> pushes (ov_heap st) (ov_heap st') new)"

lemma step_pushes_refl: "step_pushes st st"
  by (simp add: step_pushes_def pushes_refl)

lemma step_pushes_trans:
  assumes "step_pushes st st1" and "step_pushes st1 st2"
  shows "step_pushes st st2"
proof -
  from assms obtain new1 new2 where
    q: "ov_queue st1 = new1 @ ov_queue st" "ov_queue st2 = new2 @ ov_queue st1"
    and p: "pushes (ov_heap st) (ov_heap st1) new1" "pushes (ov_heap st1) (ov_heap st2) new2"
    unfolding step_pushes_def by blast
  have "ov_queue st2 = (new2 @ new1) @ ov_queue st" using q by simp
  with pushes_trans[OF p] show ?thesis unfolding step_pushes_def by blast
qed

lemma overlay_descend_pushes:
  "step_pushes st (fst (overlay_descend ctx node ncid np child st))"
proof (cases "hasParameterizedChildren node \<and> children node \<noteq> None \<and> child \<noteq> JNull")
  case False
  then show ?thesis by (auto simp: overlay_descend_def step_pushes_refl)
next
  case True
  show ?thesis
  proof (cases "array_elems (ov_heap st) child")
    case None
    obtain h1 w where w: "wrapValue ctx (ov_heap st) child = (h1, w)" by force
    from wrapValue_pushes[OF w, of ncid "the (children node)" np] True None w
    show ?thesis
      by (auto simp: overlay_descend_def step_pushes_def
            intro!: exI[of _ "[OverlayWalkNode w ncid (the (children node)) np]"])
  next
    case (Some es)
    let ?h1 = "ov_heap st @ [JArray es []]"
    from overlay_elements_pushes[of ctx "length (ov_heap st)" ncid "the (children node)" np
          "length es" ?h1 "ov_queue st"]
    obtain h2 new where
      r: "overlay_elements ctx (length (ov_heap st)) ncid (the (children node)) np (length es)
            (?h1, ov_queue st) = (h2, new @ ov_queue st)"
      and p: "pushes ?h1 h2 new" by blast
    have "pushes (ov_heap st) h2 new" using p by (auto simp: pushes_def)
    with True Some r show ?thesis
      by (auto simp: overlay_descend_def alloc_def step_pushes_def)
  qed
qed

lemma overlay_child_pushes:
  "step_pushes st (overlay_child ctx v key node ncid np child st)"
proof -
  obtain st1 child1 where d: "overlay_descend ctx node ncid np child st = (st1, child1)" by force
  from overlay_descend_pushes[of st ctx node ncid np child] d have p: "step_pushes st st1" by simp
  show ?thesis
  proof (cases "write_prop (ov_heap st1) v key child1")
    case (Inl e)
    with d p show ?thesis by (simp add: overlay_child_def step_pushes_def)
  next
    case (Inr h')
    have "length h' = length (ov_heap st1)"
      using Inr by (cases v) (auto simp: write_prop_def)
    with d p Inr show ?thesis
      by (auto simp: overlay_child_def step_pushes_def intro: pushes_same_length)
  qed
qed

lemma overlay_field_pushes:
  "step_pushes st (overlay_field imp ctx snapshot v cid pth kn st)"
proof -
  obtain key node where kn: "kn = (key, node)" by (cases kn)
  have t: "step_pushes st (st\<lparr>ov_thrown := e\<rparr>)" for e
    by (simp add: step_pushes_def pushes_refl)
  have ch: "step_pushes st (overlay_child ctx v key node ncid np child
              (st\<lparr>ov_dynamicNodeIds := d\<rparr>))" for ncid np child d
    using overlay_child_pushes[of "st\<lparr>ov_dynamicNodeIds := d\<rparr>" ctx v key node ncid np child]
    by (simp add: step_pushes_def)
  show ?thesis
    unfolding kn overlay_field_def
    by (auto simp: Let_def step_pushes_refl t ch overlay_child_pushes
        split: option.splits sum.splits prod.splits)
qed

lemma overlay_fields_pushes:
  "step_pushes st (overlay_fields imp ctx snapshot v cid pth pq st)"
proof (induction pq arbitrary: st)
  case Nil
  show ?case by (simp add: step_pushes_refl)
next
  case (Cons kn rest)
  show ?case
    using overlay_field_pushes[of st imp ctx snapshot v cid pth kn]
      Cons.IH[of "overlay_field imp ctx snapshot v cid pth kn st"]
    by (auto simp: Let_def intro: step_pushes_trans)
qed

text \<open>The loop starts in a state of the engine, and every iteration leads from one to
  another.\<close>

lemma engine_state_step:
  assumes inv: "engine_state n st" and queue: "ov_queue st = wn # rest"
  shows "engine_state n (overlay_node imp ctx snapshot wn (st\<lparr>ov_queue := rest\<rparr>))"
proof -
  let ?st0 = "st\<lparr>ov_queue := rest\<rparr>"
  let ?st1 = "overlay_node imp ctx snapshot wn ?st0"
  have "step_pushes ?st0 ?st1" unfolding overlay_node_def by (rule overlay_fields_pushes)
  then obtain new where q: "ov_queue ?st1 = new @ rest"
    and p: "pushes (ov_heap st) (ov_heap ?st1) new"
    by (auto simp: step_pushes_def)
  have inv': "n \<le> length (ov_heap st)"
      "\<forall>a \<in> set (queue_refs (wn # rest)). n \<le> a \<and> a < length (ov_heap st)"
      "distinct (queue_refs (wn # rest))"
    using inv queue by (simp_all add: engine_state_def)
  have p': "length (ov_heap st) \<le> length (ov_heap ?st1)" "distinct (queue_refs new)"
      "\<forall>a \<in> set (queue_refs new). length (ov_heap st) \<le> a \<and> a < length (ov_heap ?st1)"
    using p by (simp_all add: pushes_def)
  have r: "\<forall>a \<in> set (queue_refs rest). n \<le> a \<and> a < length (ov_heap st)"
      "distinct (queue_refs rest)"
    using inv'(2,3) by simp_all
  have d: "set (queue_refs new) \<inter> set (queue_refs rest) = {}"
  proof (rule ccontr)
    assume "set (queue_refs new) \<inter> set (queue_refs rest) \<noteq> {}"
    then obtain a where "a \<in> set (queue_refs new)" "a \<in> set (queue_refs rest)" by blast
    with p'(3) r(1) have "length (ov_heap st) \<le> a" "a < length (ov_heap st)" by simp_all
    then show False by simp
  qed
  have all: "\<forall>a \<in> set (queue_refs (new @ rest)). n \<le> a \<and> a < length (ov_heap ?st1)"
  proof
    fix a assume "a \<in> set (queue_refs (new @ rest))"
    then have "a \<in> set (queue_refs new) \<or> a \<in> set (queue_refs rest)" by simp
    then show "n \<le> a \<and> a < length (ov_heap ?st1)"
    proof
      assume "a \<in> set (queue_refs new)"
      with p'(3) inv'(1) show ?thesis by force
    next
      assume "a \<in> set (queue_refs rest)"
      with r(1) p'(1) show ?thesis by force
    qed
  qed
  have "n \<le> length (ov_heap ?st1)" using inv'(1) p'(1) by simp
  moreover have "distinct (queue_refs (new @ rest))" using p'(2) r(2) d by simp
  ultimately show ?thesis unfolding engine_state_def q using all by simp
qed

lemma engine_state_start:
  assumes "wrapValue ctx h res = (h1, w)"
  shows "engine_state (length h)
           \<lparr>ov_heap = h1, ov_queue = [OverlayWalkNode w cid pq np], ov_dynamicNodeIds = dyn,
            ov_thrown = None\<rparr>"
  using wrapValue_pushes[OF assms, of cid pq np]
  by (auto simp: engine_state_def pushes_def)



































lemma overlay_loop_Nil: "ov_queue st = [] \<Longrightarrow> overlay_loop imp ctx snapshot st = st"
  by (subst overlay_loop_unfold) simp

lemma overlay_loop_Cons:
  "ov_queue st = wn # rest \<Longrightarrow>
   overlay_loop imp ctx snapshot st =
     (let st' = overlay_node imp ctx snapshot wn (st\<lparr>ov_queue := rest\<rparr>)
      in if ov_thrown st' \<noteq> None then st' else overlay_loop imp ctx snapshot st')"
  by (subst overlay_loop_unfold) simp

text \<open>The query \<open>{ viewer { ps: posts(first: 2) } }\<close>: a store with the root object
  and its \<open>viewer\<close>, and a snapshot that may hold the parameterized \<open>posts\<close> under
  its synthetic id.\<close>

definition postsField :: SelectionNode where
  "postsField = Field 2 (Some ''ps'') ''posts'' [(''first'', Literal (JsonNum 2))] [] None"

definition postsParsed :: ParsedQuery where
  "postsParsed =
     [(''ps'', ParsedQueryNode postsField None (Some ''posts'') (Some [(''first'', JsonNum 2)]) False)]"

definition viewerParsed :: ParsedQuery where
  "viewerParsed =
     [(''viewer'', ParsedQueryNode (Field 1 None ''viewer'' [] [] (Some [postsField]))
                    (Some postsParsed) None None True)]"

definition viewerOperation :: OperationInstance where
  "viewerOperation =
     \<lparr>rootId = ''ROOT_QUERY'', isStatic = False, parsedQuery = viewerParsed,
      info_parsed = viewerParsed\<rparr>"

definition viewerHeap :: heap where
  "viewerHeap = [JObject [(''viewer'', JRef 1)], JObject [(''name'', JStr ''x'')]]"

definition viewerSnapshot :: "jsvalue option \<Rightarrow> GraphSnapshot" where
  "viewerSnapshot posts =
     \<lparr>nodes = (\<lambda>nid. if nid = ''ROOT_QUERY'' then Some \<lparr>data = JRef 0\<rparr>
                      else if nid = ''ROOT_QUERY.posts'' then map_option (\<lambda>v. \<lparr>data = v\<rparr>) posts
                      else None),
      readCache = (\<lambda>operation. None)\<rparr>"

lemma viewer_overlay:
  "walkAndOverlayDynamicValues plainImports (plainContext viewerOperation) viewerOperation
     (viewerSnapshot (Some (JNum 7))) viewerHeap (JRef 0) {} =
   (\<lparr>ov_heap = viewerHeap @ [JObject [(''viewer'', JRef 3)],
                              JObject [(''name'', JStr ''x''), (''ps'', JNum 7)]],
     ov_queue = [], ov_dynamicNodeIds = {''ROOT_QUERY.posts''}, ov_thrown = None\<rparr>, JRef 2)"
  by (simp add: walkAndOverlayDynamicValues_def viewerSnapshot_def getNodeSnapshot_def
        viewerOperation_def viewerParsed_def postsParsed_def viewerHeap_def wrapValue_def
        plainContext_def plainImports_def cell_def alloc_def overlay_loop_Cons overlay_loop_Nil
        overlay_node_def containerOf_def pathOf_def overlay_field_def fieldNameFor_def
        read_prop_def overlay_child_def overlay_descend_def array_elems_def write_prop_def
        resolve_parameterized_def Let_def)


theorem overlay_preserves_store_witness:
  "take 2 (ov_heap (fst (walkAndOverlayDynamicValues plainImports (plainContext viewerOperation)
        viewerOperation (viewerSnapshot (Some (JNum 7))) viewerHeap (JRef 0) {}))) =
     [JObject [(''viewer'', JRef 1)], JObject [(''name'', JStr ''x'')]]"
  using overlay_preserves_store
    [where h = viewerHeap and imp = plainImports and ctx = "plainContext viewerOperation"
       and query = viewerOperation and snapshot = "viewerSnapshot (Some (JNum 7))"
       and res = "JRef 0" and dyn = "{}"]
  by (simp add: viewerHeap_def numeral_2_eq_2)

definition viewerState :: OverlayState where
  "viewerState =
     \<lparr>ov_heap = viewerHeap @ [JObject [(''viewer'', JRef 3)], JObject [(''name'', JStr ''x'')]],
      ov_queue = [OverlayWalkNode (JRef 3) ''ROOT_QUERY'' postsParsed [PathKey ''viewer'']],
      ov_dynamicNodeIds = {}, ov_thrown = None\<rparr>"















lemma read_prop_get:
  "v \<noteq> JNull \<Longrightarrow> v \<noteq> JUndefined \<Longrightarrow> read_prop h v k = Inr (get h v k)"
  by (cases v) (auto simp: read_prop_def get_def split: option.splits)

lemma check_fields_missing:
  "(key, sel) \<in> set flds \<Longrightarrow> \<not> has_prop h v key \<Longrightarrow> \<not> v_complete (check_fields h v flds s)"
  by (induction flds) (auto split: if_splits)

text \<open>
  \<^bold>\<open>C7.\<close>  Let a field carry arguments, let the value whose fields are overlaid be
  neither \<open>null\<close> nor \<open>undefined\<close> (as holds of every value the engine queues), and
  let neither the synthetic id nor the id given by a redirect, if there is one, be
  the id of a stored node.  Then the loop body for this field changes nothing: the
  value keeps what it had, nothing is queued, no id is recorded and no exception is
  thrown.  The absence is dealt with as data: when the value is an object without
  that response key, the completeness visitor reports it incomplete.
\<close>

theorem unresolved_parameterized_field:
  assumes a: "args node = Some a"
    and v: "v \<noteq> JNull" "v \<noteq> JUndefined"
    and syn: "getNodeSnapshot snapshot
        (nodeIdForParameterizedValue imp cid (pth @ [PathKey (fieldNameFor key node)]) a) = None"
    and red: "case resolverRedirects ctx
                (if \<not> truthy (get (ov_heap st) v ''__typename'') \<and> cid = QueryRoot imp
                 then JStr ''Query'' else get (ov_heap st) v ''__typename'')
                (fieldNameFor key node) of
          None \<Rightarrow> True
        | Some redirect \<Rightarrow>
            (case redirect a of
               None \<Rightarrow> True
             | Some rid \<Rightarrow> getNodeSnapshot snapshot rid = None)"
  shows "overlay_field imp ctx snapshot v cid pth (key, node) st = st \<and>
         (\<forall>flds vst ps sel.
            (key, sel) \<in> set flds \<longrightarrow> isObject v \<longrightarrow> \<not> has_prop (ov_heap st) v key \<longrightarrow>
            \<not> v_complete (snd (visitor ctx (ov_heap st) vst v flds ps)))"
proof -
  define tname where "tname =
     (if \<not> truthy (get (ov_heap st) v ''__typename'') \<and> cid = QueryRoot imp
      then JStr ''Query'' else get (ov_heap st) v ''__typename'')"
  have red': "case resolverRedirects ctx tname (fieldNameFor key node) of
          None \<Rightarrow> True
        | Some redirect \<Rightarrow>
            (case redirect a of
               None \<Rightarrow> True
             | Some rid \<Rightarrow> getNodeSnapshot snapshot rid = None)"
    using red unfolding tname_def .
  have "resolve_parameterized imp ctx snapshot (ov_heap st) v cid (fieldNameFor key node) a
          (nodeIdForParameterizedValue imp cid (pth @ [PathKey (fieldNameFor key node)]) a) =
        (case resolverRedirects ctx tname (fieldNameFor key node) of
           None \<Rightarrow> Inr None
         | Some redirect \<Rightarrow>
             (case redirect a of
                None \<Rightarrow> Inr None
              | Some rid \<Rightarrow>
                  (case getNodeSnapshot snapshot rid of
                     None \<Rightarrow> Inr None
                   | Some childSnapshot \<Rightarrow> Inr (Some (rid, childSnapshot)))))"
    unfolding resolve_parameterized_def Let_def tname_def
    by (simp only: syn read_prop_get[OF v] option.case sum.case)
  with red' have "resolve_parameterized imp ctx snapshot (ov_heap st) v cid (fieldNameFor key node) a
          (nodeIdForParameterizedValue imp cid (pth @ [PathKey (fieldNameFor key node)]) a) =
        Inr None"
    by (auto split: option.splits)
  then have "overlay_field imp ctx snapshot v cid pth (key, node) st = st"
    using a by (simp add: overlay_field_def Let_def)
  moreover have "\<not> v_complete (snd (visitor ctx (ov_heap st) vst v flds ps))"
    if "(key, sel) \<in> set flds" "isObject v" "\<not> has_prop (ov_heap st) v key" for flds vst ps sel
    using that check_fields_missing[OF that(1,3)]
    by (cases v) (auto simp: visitor_def Let_def split: option.splits)
  ultimately show ?thesis by blast
qed

theorem unresolved_parameterized_field_witness:
  "overlay_field plainImports (plainContext viewerOperation) (viewerSnapshot None) (JRef 3)
     ''ROOT_QUERY'' [PathKey ''viewer'']
     (''ps'', ParsedQueryNode postsField None (Some ''posts'') (Some [(''first'', JsonNum 2)]) False)
     viewerState = viewerState \<and>
   \<not> v_complete (snd (visitor (plainContext viewerOperation) (ov_heap viewerState) initialVisit
        (JRef 3) [(''ps'', postsField)] None))"
proof -
  have "overlay_field plainImports (plainContext viewerOperation) (viewerSnapshot None) (JRef 3)
     ''ROOT_QUERY'' [PathKey ''viewer'']
     (''ps'', ParsedQueryNode postsField None (Some ''posts'') (Some [(''first'', JsonNum 2)]) False)
     viewerState = viewerState \<and>
     (\<forall>flds vst ps sel.
            (''ps'', sel) \<in> set flds \<longrightarrow> isObject (JRef 3) \<longrightarrow>
            \<not> has_prop (ov_heap viewerState) (JRef 3) ''ps'' \<longrightarrow>
            \<not> v_complete (snd (visitor (plainContext viewerOperation) (ov_heap viewerState) vst
                 (JRef 3) flds ps)))"
    by (rule unresolved_parameterized_field[where a = "[(''first'', JsonNum 2)]"])
       (simp_all add: viewerSnapshot_def getNodeSnapshot_def plainContext_def plainImports_def
          fieldNameFor_def)
  moreover have "\<not> has_prop (ov_heap viewerState) (JRef 3) ''ps''"
    by (simp add: has_prop_def viewerState_def viewerHeap_def cell_def)
  ultimately show ?thesis by simp
qed

end
